theory Spec2Isabelle
  imports Complex_Main
begin

section \<open>Python values and exceptions\<close>

text \<open>
  The object returned by \<^verbatim>\<open>response.json()\<close>: a decoded JSON document. A Python
  \<^verbatim>\<open>float\<close> is read as the real number it denotes (NaN and the infinities, which
  standard JSON cannot write, are left out); a \<^verbatim>\<open>dict\<close> is an association list.
\<close>

datatype jval =
    JNull
  | JBool bool
  | JInt int
  | JFloat real
  | JStr string
  | JArr "jval list"
  | JObj "(string \<times> jval) list"

text \<open>Python truthiness (\<^verbatim>\<open>not v\<close> is the negation).\<close>

fun truthy :: "jval \<Rightarrow> bool" where
  "truthy JNull = False"
| "truthy (JBool b) = b"
| "truthy (JInt i) = (i \<noteq> 0)"
| "truthy (JFloat x) = (x \<noteq> 0)"
| "truthy (JStr s) = (s \<noteq> [])"
| "truthy (JArr xs) = (xs \<noteq> [])"
| "truthy (JObj kvs) = (kvs \<noteq> [])"

text \<open>\<^verbatim>\<open>d.get(key, default)\<close> on a dict.\<close>

definition dict_get :: "(string \<times> jval) list \<Rightarrow> string \<Rightarrow> jval \<Rightarrow> jval" where
  "dict_get kvs k d = (case map_of kvs k of None \<Rightarrow> d | Some v \<Rightarrow> v)"

text \<open>
  The exceptions that travel through the transport and the session adapter.
  \<open>IBAPIError message status_code\<close> is the module's own class; \<open>RequestError\<close> is
  \<^verbatim>\<open>httpx.RequestError\<close> (connection failures and httpx timeouts);
  \<open>HTTPStatusError\<close> is what \<^verbatim>\<open>raise_for_status\<close> raises; \<open>OtherException\<close> is any
  other subclass of \<^verbatim>\<open>Exception\<close>. Each carries its message, \<^verbatim>\<open>str(e)\<close>.
\<close>

datatype exn =
    IBAPIError string "int option"
  | RequestError string
  | HTTPStatusError string
  | JSONDecodeError string
  | AttributeError string
  | OtherException string

fun str_exn :: "exn \<Rightarrow> string" where
  "str_exn (IBAPIError m c) = m"
| "str_exn (RequestError m) = m"
| "str_exn (HTTPStatusError m) = m"
| "str_exn (JSONDecodeError m) = m"
| "str_exn (AttributeError m) = m"
| "str_exn (OtherException m) = m"

fun status_code_of :: "exn \<Rightarrow> int option" where
  "status_code_of (IBAPIError m c) = c"
| "status_code_of e = None"

subsection \<open>String helpers: \<^verbatim>\<open>str(int)\<close>, \<^verbatim>\<open>str.lower\<close>, \<^verbatim>\<open>in\<close>\<close>

definition digit_char :: "nat \<Rightarrow> char" where
  "digit_char d = ''0123456789'' ! d"

fun str_nat :: "nat \<Rightarrow> string" where
  "str_nat n = (if n < 10 then [digit_char n] else str_nat (n div 10) @ [digit_char (n mod 10)])"

definition str_int :: "int \<Rightarrow> string" where
  "str_int i = (if i < 0 then CHR ''-'' # str_nat (nat (- i)) else str_nat (nat i))"

text \<open>\<^verbatim>\<open>str.lower()\<close> on the ASCII range.\<close>

definition lower_char :: "char \<Rightarrow> char" where
  "lower_char c =
     (case map_of (zip ''ABCDEFGHIJKLMNOPQRSTUVWXYZ'' ''abcdefghijklmnopqrstuvwxyz'') c of
        Some l \<Rightarrow> l
      | None \<Rightarrow> c)"

definition lower :: "string \<Rightarrow> string" where
  "lower s = map lower_char s"

fun startswith :: "string \<Rightarrow> string \<Rightarrow> bool" where
  "startswith [] ys = True"
| "startswith (x # xs) [] = False"
| "startswith (x # xs) (y # ys) = (x = y \<and> startswith xs ys)"

text \<open>\<open>contains needle hay\<close> is \<^verbatim>\<open>needle in hay\<close>.\<close>

fun contains :: "string \<Rightarrow> string \<Rightarrow> bool" where
  "contains n [] = (n = [])"
| "contains n (y # ys) = (startswith n (y # ys) \<or> contains n ys)"

section \<open>The transport: \<^verbatim>\<open>ib_client/core/http.py\<close>\<close>

text \<open>
  What \<^verbatim>\<open>httpx\<close> hands back for one attempt. A response is read through its status
  code, \<^verbatim>\<open>raise_for_status()\<close> (the message of the error it raises, if it raises),
  its raw content, and \<^verbatim>\<open>json()\<close> (the decoded value, or the message of the decoding
  error).
\<close>

record response =
  status_code :: int
  raise_for_status :: "string option"
  content :: string
  json :: "string + jval"

datatype client_result = Response response | ClientError exn

text \<open>
  The environment: the outcome of the k-th HTTP attempt made over the life of the
  process, the log of attempts issued (method and path), and the log of the delays
  passed to \<^verbatim>\<open>asyncio.sleep\<close> by the transport.
\<close>

record world =
  responses :: "nat \<Rightarrow> client_result"
  requests :: "(string \<times> string) list"
  slept :: "real list"

text \<open>How one iteration of the retry loop ends.\<close>

datatype flow = Return jval | Throw exn | Retry

text \<open>The body of the \<^verbatim>\<open>try\<close> block, for the loop index \<open>attempt\<close>.\<close>

fun try_block :: "nat \<Rightarrow> int \<Rightarrow> client_result \<Rightarrow> flow" where
  "try_block attempt max_retries (ClientError e) = Throw e"
| "try_block attempt max_retries (Response r) =
     (if status_code r = 401 then Throw (IBAPIError ''Authentication required'' (Some 401))
      else if status_code r = 403 then Throw (IBAPIError ''Access forbidden'' (Some 403))
      else if status_code r \<ge> 500 then
        (if int attempt < max_retries then Retry
         else Throw (IBAPIError (''Server error: '' @ str_int (status_code r))
                       (Some (status_code r))))
      else (case raise_for_status r of
              Some m \<Rightarrow> Throw (HTTPStatusError m)
            | None \<Rightarrow>
                if content r = [] then Return (JObj [])
                else (case json r of
                        Inl m \<Rightarrow> Throw (JSONDecodeError m)
                      | Inr v \<Rightarrow> Return v)))"

text \<open>
  The two \<^verbatim>\<open>except\<close> clauses: \<^verbatim>\<open>httpx.RequestError\<close> first, then every other
  \<^verbatim>\<open>Exception\<close> (which includes the \<^verbatim>\<open>IBAPIError\<close>s raised in the body).
\<close>

fun except_clauses :: "nat \<Rightarrow> int \<Rightarrow> exn \<Rightarrow> flow" where
  "except_clauses attempt max_retries (RequestError m) =
     (if int attempt < max_retries then Retry
      else Throw (IBAPIError (''Request failed after '' @ str_int max_retries
                                @ '' retries: '' @ m) None))"
| "except_clauses attempt max_retries e =
     (if int attempt < max_retries \<and> contains ''timeout'' (lower (str_exn e)) then Retry
      else Throw e)"

definition iteration :: "nat \<Rightarrow> int \<Rightarrow> client_result \<Rightarrow> flow" where
  "iteration attempt max_retries r =
     (case try_block attempt max_retries r of
        Throw e \<Rightarrow> except_clauses attempt max_retries e
      | f \<Rightarrow> f)"

text \<open>
  The loop \<^verbatim>\<open>for attempt in range(max_retries + 1)\<close>, from index \<open>attempt\<close> on, and
  the \<^verbatim>\<open>raise\<close> that follows it. Each attempt is logged; each retry logs its sleep,
  \<^verbatim>\<open>retry_delay * (2 ** attempt)\<close>.
\<close>

function request_loop ::
  "string \<Rightarrow> string \<Rightarrow> int \<Rightarrow> real \<Rightarrow> nat \<Rightarrow> world \<Rightarrow> (exn + jval) \<times> world" where
  "request_loop method path max_retries retry_delay attempt w =
     (if int attempt < max_retries + 1 then
        (case iteration attempt max_retries (responses w (length (requests w))) of
           Return v \<Rightarrow> (Inr v, w\<lparr>requests := requests w @ [(method, path)]\<rparr>)
         | Throw e \<Rightarrow> (Inl e, w\<lparr>requests := requests w @ [(method, path)]\<rparr>)
         | Retry \<Rightarrow>
             request_loop method path max_retries retry_delay (Suc attempt)
               (w\<lparr>requests := requests w @ [(method, path)],
                  slept := slept w @ [retry_delay * 2 ^ attempt]\<rparr>))
      else (Inl (IBAPIError (''Max retries ('' @ str_int max_retries @ '') exceeded'') None), w))"
  by pat_completeness auto
termination
  by (relation "measure (\<lambda>(m, p, mr, d, a, w). nat (mr + 1 - int a))") auto

definition request_with_retry ::
  "string \<Rightarrow> string \<Rightarrow> int \<Rightarrow> real \<Rightarrow> world \<Rightarrow> (exn + jval) \<times> world" where
  "request_with_retry method path max_retries retry_delay w =
     request_loop method path max_retries retry_delay 0 w"

text \<open>The wrappers, which leave \<^verbatim>\<open>max_retries = 3\<close> and \<^verbatim>\<open>retry_delay = 1.0\<close>.\<close>

definition get :: "string \<Rightarrow> world \<Rightarrow> (exn + jval) \<times> world" where
  "get path w = request_with_retry ''GET'' path 3 1 w"

definition post :: "string \<Rightarrow> world \<Rightarrow> (exn + jval) \<times> world" where
  "post path w = request_with_retry ''POST'' path 3 1 w"

definition delete :: "string \<Rightarrow> world \<Rightarrow> (exn + jval) \<times> world" where
  "delete path w = request_with_retry ''DELETE'' path 3 1 w"

text \<open>The number of attempts a call made, read off the log.\<close>

definition attempts :: "world \<Rightarrow> world \<Rightarrow> nat" where
  "attempts w w' = length (requests w') - length (requests w)"

text \<open>
  \<open>answers r v\<close>: the response \<open>r\<close> makes an attempt return \<open>v\<close>. Its status is
  not one the transport raises or retries on, \<^verbatim>\<open>raise_for_status()\<close> passes, and \<open>v\<close> is
  the empty map for an empty body and the decoded body otherwise.
\<close>

definition answers :: "response \<Rightarrow> jval \<Rightarrow> bool" where
  "answers r v =
     (status_code r \<noteq> 401 \<and> status_code r \<noteq> 403 \<and> status_code r < 500
      \<and> raise_for_status r = None
      \<and> (if content r = [] then v = JObj [] else json r = Inr v))"

section \<open>The session adapter: \<^verbatim>\<open>ib_client/core/session.py\<close>\<close>

text \<open>
  An \<^verbatim>\<open>asyncio.Task\<close> is read through \<^verbatim>\<open>done()\<close> only: it is pending until it
  has finished or been cancelled.
\<close>

datatype task = Pending | Finished

fun is_done :: "task \<Rightarrow> bool" where
  "is_done Pending = False"
| "is_done Finished = True"

text \<open>
  The fields of \<^verbatim>\<open>SessionAdapter\<close>. Times are the seconds of \<^verbatim>\<open>time.time()\<close>, read as
  real numbers. The lock is not a field of this record: the whole body of
  \<^verbatim>\<open>_ensure_live\<close> runs inside \<^verbatim>\<open>async with self._session_lock\<close>, so the calls of
  concurrent callers take effect one after the other, each one on the state the
  previous one left (see \<open>ensure_live_each\<close>). \<^verbatim>\<open>logout\<close> takes no lock: calls that
  overlap with it are followed from await to await in \<open>system\<close> below, where the lock is
  a field.
\<close>

record session =
  session_status :: "jval option"
  last_auth_check :: "real option"
  auth_check_interval :: real
  keep_alive_task :: "task option"
  keep_alive_interval :: real

text \<open>\<^verbatim>\<open>__init__\<close>.\<close>

definition new_session :: session where
  "new_session =
     \<lparr>session_status = None, last_auth_check = None, auth_check_interval = 300,
      keep_alive_task = None, keep_alive_interval = 60\<rparr>"

text \<open>\<^verbatim>\<open>_reauthenticate\<close>: the result is logged; any \<^verbatim>\<open>Exception\<close> is replaced.\<close>

definition reauthenticate :: "world \<Rightarrow> (exn + unit) \<times> world" where
  "reauthenticate w =
     (case post ''/iserver/reauthenticate'' w of
        (Inr result, w1) \<Rightarrow> (Inr (), w1)
      | (Inl e, w1) \<Rightarrow>
          (Inl (IBAPIError ''Reauthentication failed. Manual login may be required.'' None), w1))"

text \<open>The message of the \<^verbatim>\<open>AttributeError\<close> of \<^verbatim>\<open>status.get\<close> on a value that is no dict.\<close>

fun type_name :: "jval \<Rightarrow> string" where
  "type_name JNull = ''NoneType''"
| "type_name (JBool b) = ''bool''"
| "type_name (JInt i) = ''int''"
| "type_name (JFloat x) = ''float''"
| "type_name (JStr s) = ''str''"
| "type_name (JArr xs) = ''list''"
| "type_name (JObj kvs) = ''dict''"

definition no_attribute_get :: "jval \<Rightarrow> exn" where
  "no_attribute_get v =
     AttributeError ([CHR 0x27] @ type_name v @ [CHR 0x27] @ '' object has no attribute ''
                       @ [CHR 0x27] @ ''get'' @ [CHR 0x27])"

text \<open>
  The keep-alive is started when there is no task or the task is done.
\<close>

definition start_keep_alive :: "session \<Rightarrow> session" where
  "start_keep_alive s =
     (case keep_alive_task s of
        None \<Rightarrow> s\<lparr>keep_alive_task := Some Pending\<rparr>
      | Some t \<Rightarrow> if is_done t then s\<lparr>keep_alive_task := Some Pending\<rparr> else s)"

text \<open>The \<^verbatim>\<open>try\<close> block of \<^verbatim>\<open>_check_auth_status\<close>.\<close>

definition try_check :: "session \<Rightarrow> world \<Rightarrow> (exn + jval) \<times> session \<times> world" where
  "try_check s w =
     (case post ''/iserver/auth/status'' w of
        (Inl e, w1) \<Rightarrow> (Inl e, s, w1)
      | (Inr status, w1) \<Rightarrow>
          (case status of
             JObj kvs \<Rightarrow>
               if \<not> truthy (dict_get kvs ''authenticated'' (JBool False))
               then (Inl (IBAPIError
                            ''Session not authenticated. Please log in through the IB Gateway.''
                            None),
                     s\<lparr>session_status := Some status\<rparr>, w1)
               else (Inr status, start_keep_alive (s\<lparr>session_status := Some status\<rparr>), w1)
           | _ \<Rightarrow> (Inl (no_attribute_get status), s\<lparr>session_status := Some status\<rparr>, w1)))"

text \<open>
  \<^verbatim>\<open>_check_auth_status\<close>: the \<^verbatim>\<open>try\<close> block, then the handler
  \<^verbatim>\<open>except IBAPIError as e\<close>, which on status code 401 re-authenticates and calls
  \<^verbatim>\<open>_check_auth_status\<close> again. The call need not return: \<open>None\<close> is that case.
\<close>

partial_function (option) check_auth_status ::
  "session \<Rightarrow> world \<Rightarrow> ((exn + jval) \<times> session \<times> world) option" where
  "check_auth_status s w =
     (case try_check s w of
        (Inr status, s1, w1) \<Rightarrow> Some (Inr status, s1, w1)
      | (Inl e, s1, w1) \<Rightarrow>
          (case e of
             IBAPIError m c \<Rightarrow>
               if c = Some 401 then
                 (case reauthenticate w1 of
                    (Inl e', w2) \<Rightarrow> Some (Inl e', s1, w2)
                  | (Inr u, w2) \<Rightarrow> check_auth_status s1 w2)
               else Some (Inl e, s1, w1)
           | _ \<Rightarrow> Some (Inl e, s1, w1)))"

text \<open>The staleness test of \<^verbatim>\<open>_ensure_live\<close>, at the clock reading \<open>current_time\<close>.\<close>

definition needs_check :: "real \<Rightarrow> session \<Rightarrow> bool" where
  "needs_check current_time s =
     (case last_auth_check s of
        None \<Rightarrow> True
      | Some l \<Rightarrow> current_time - l > auth_check_interval s)"

text \<open>\<^verbatim>\<open>_ensure_live\<close>, with the reading of \<^verbatim>\<open>time.time()\<close> as a parameter.\<close>

definition ensure_live ::
  "real \<Rightarrow> session \<Rightarrow> world \<Rightarrow> ((exn + unit) \<times> session \<times> world) option" where
  "ensure_live current_time s w =
     (if needs_check current_time s then
        (case check_auth_status s w of
           None \<Rightarrow> None
         | Some (Inl e, s1, w1) \<Rightarrow> Some (Inl e, s1, w1)
         | Some (Inr status, s1, w1) \<Rightarrow>
             Some (Inr (), s1\<lparr>last_auth_check := Some current_time\<rparr>, w1))
      else Some (Inr (), s, w))"

text \<open>\<^verbatim>\<open>get_session_info\<close>: \<^verbatim>\<open>self._session_status or {}\<close> after \<^verbatim>\<open>_ensure_live\<close>.\<close>

definition get_session_info ::
  "real \<Rightarrow> session \<Rightarrow> world \<Rightarrow> ((exn + jval) \<times> session \<times> world) option" where
  "get_session_info current_time s w =
     (case ensure_live current_time s w of
        None \<Rightarrow> None
      | Some (Inl e, s1, w1) \<Rightarrow> Some (Inl e, s1, w1)
      | Some (Inr u, s1, w1) \<Rightarrow>
          Some (Inr (case session_status s1 of
                       None \<Rightarrow> JObj []
                     | Some v \<Rightarrow> if truthy v then v else JObj []),
                s1, w1))"

text \<open>
  \<^verbatim>\<open>logout\<close>: a task that is not done is cancelled and awaited, after which it is
  done; the handle stays in \<^verbatim>\<open>_keep_alive_task\<close>. The outcome of the call to
  \<^verbatim>\<open>/logout\<close> is dropped; the cached status and the timestamp are reset.
\<close>

definition logout :: "session \<Rightarrow> world \<Rightarrow> session \<times> world" where
  "logout s w =
     (let s1 = (case keep_alive_task s of
                  None \<Rightarrow> s
                | Some t \<Rightarrow> if \<not> is_done t then s\<lparr>keep_alive_task := Some Finished\<rparr> else s)
      in case post ''/logout'' w of
           (r, w1) \<Rightarrow> (s1\<lparr>session_status := None, last_auth_check := None\<rparr>, w1))"

text \<open>
  Callers of \<^verbatim>\<open>_ensure_live\<close> that contend for the lock: they enter one at a time,
  each reading the clock once it holds the lock. \<open>ensure_live_each\<close> runs the
  callers in the order in which they get the lock, given their clock readings, and
  collects what each one receives.
\<close>

fun ensure_live_each ::
  "real list \<Rightarrow> session \<Rightarrow> world \<Rightarrow> ((exn + unit) list \<times> session \<times> world) option" where
  "ensure_live_each [] s w = Some ([], s, w)"
| "ensure_live_each (t # ts) s w =
     (case ensure_live t s w of
        None \<Rightarrow> None
      | Some (r, s1, w1) \<Rightarrow>
          (case ensure_live_each ts s1 w1 of
             None \<Rightarrow> None
           | Some (rs, s2, w2) \<Rightarrow> Some (r # rs, s2, w2)))"

text \<open>How often a path was requested, read off the log.\<close>

definition calls_to :: "string \<Rightarrow> world \<Rightarrow> nat" where
  "calls_to path w = length (filter (\<lambda>(m, p). p = path) (requests w))"

text \<open>A keep-alive task exists and is not done.\<close>

definition pending :: "session \<Rightarrow> bool" where
  "pending s = (case keep_alive_task s of None \<Rightarrow> False | Some t \<Rightarrow> \<not> is_done t)"

subsection \<open>The keep-alive loop\<close>

text \<open>
  What an \<^verbatim>\<open>await\<close> hands back to the coroutine: a value, an \<^verbatim>\<open>Exception\<close>, or
  \<^verbatim>\<open>asyncio.CancelledError\<close>, which is a \<^verbatim>\<open>BaseException\<close> and no \<^verbatim>\<open>Exception\<close>
  (Python 3.8 and later), so that no \<^verbatim>\<open>except Exception\<close> clause catches it.
\<close>

datatype 'a awaited = Returned 'a | Raised exn | CancelledError

text \<open>
  \<^verbatim>\<open>_tickle\<close>, given what \<^verbatim>\<open>await _post("/tickle")\<close> hands back: an exception of the
  call is logged and dropped, a cancellation passes through.
\<close>

fun tickle :: "jval awaited \<Rightarrow> unit awaited" where
  "tickle (Returned v) = Returned ()"
| "tickle (Raised e) = Returned ()"
| "tickle CancelledError = CancelledError"

text \<open>
  One pass through the body of \<^verbatim>\<open>while True\<close> in \<^verbatim>\<open>_keep_alive_loop\<close>, given what
  \<^verbatim>\<open>asyncio.sleep\<close> and, if it is reached, the call in \<^verbatim>\<open>_tickle\<close> hand back:
  \<^verbatim>\<open>except asyncio.CancelledError\<close> breaks, \<^verbatim>\<open>except Exception\<close> logs and goes on.
\<close>

datatype loop_flow = Continue | Break

fun keep_alive_pass :: "unit awaited \<Rightarrow> jval awaited \<Rightarrow> loop_flow" where
  "keep_alive_pass CancelledError posted = Break"
| "keep_alive_pass (Raised e) posted = Continue"
| "keep_alive_pass (Returned u) posted =
     (case tickle posted of
        CancelledError \<Rightarrow> Break
      | Raised e \<Rightarrow> Continue
      | Returned u' \<Rightarrow> Continue)"

text \<open>
  \<^verbatim>\<open>_keep_alive_loop\<close> from its \<open>k\<close>-th pass on, given what the awaits of each pass
  hand back: the number of the pass in which the loop is left, \<open>None\<close> if it never is.
\<close>

partial_function (option) keep_alive_loop ::
  "(nat \<Rightarrow> unit awaited \<times> jval awaited) \<Rightarrow> nat \<Rightarrow> nat option" where
  "keep_alive_loop awaits k =
     (case keep_alive_pass (fst (awaits k)) (snd (awaits k)) of
        Break \<Rightarrow> Some k
      | Continue \<Rightarrow> keep_alive_loop awaits (Suc k))"

text \<open>The pass is cancelled: \<^verbatim>\<open>CancelledError\<close> is raised in the sleep or in the tickle.\<close>

definition cancelled_in :: "unit awaited \<times> jval awaited \<Rightarrow> bool" where
  "cancelled_in a =
     (case fst a of
        CancelledError \<Rightarrow> True
      | Raised e \<Rightarrow> False
      | Returned u \<Rightarrow> (case snd a of CancelledError \<Rightarrow> True | _ \<Rightarrow> False))"

subsection \<open>Calls that overlap\<close>

text \<open>
  The adapters call \<^verbatim>\<open>_ensure_live\<close> and \<^verbatim>\<open>logout\<close> (and \<^verbatim>\<open>get_session_info\<close>, which
  is \<^verbatim>\<open>_ensure_live\<close> followed by a read). A call runs until it awaits; other calls and
  the keep-alive task run while it waits. A call is followed here from await to await:
  \<^item> \<^verbatim>\<open>_ensure_live\<close> waits for the lock (line 30), then, holding it, for
    \<^verbatim>\<open>_post("/iserver/auth/status")\<close> (line 43) and, after a 401, for
    \<^verbatim>\<open>_reauthenticate()\<close> (line 61) and the status call again;
  \<^item> \<^verbatim>\<open>logout\<close> takes no lock; it waits for the cancelled task (line 105) and for
    \<^verbatim>\<open>_post("/logout")\<close> (line 110).
  A call of the transport takes effect in one step, when it completes: it touches the
  request log only, never the session.

  Where a call is: \<open>EL_lock\<close> waiting for the lock; \<open>EL_status t\<close> and \<open>EL_reauth t\<close>
  holding the lock, with the clock reading \<open>t\<close>, before the status call and before
  \<^verbatim>\<open>_reauthenticate()\<close>; \<open>EL_returned r\<close> returned or raised; \<open>LO_called\<close> at line 102;
  \<open>LO_task\<close> waiting for the cancelled task; \<open>LO_post\<close> before the call to
  \<^verbatim>\<open>/logout\<close>; \<open>LO_returned\<close> returned.
\<close>

datatype thread =
    EL_lock
  | EL_status real
  | EL_reauth real
  | EL_returned "exn + unit"
  | LO_called
  | LO_task
  | LO_post
  | LO_returned

text \<open>
  The session, its environment, the lock, the calls in progress, and whether
  \<^verbatim>\<open>cancel()\<close> has been called on the task in \<^verbatim>\<open>_keep_alive_task\<close> without the task having
  ended yet (until it ends, \<^verbatim>\<open>done()\<close> is still false). Two counters are kept for the
  statements below and read by no step: \<open>checks_ok\<close>, the number of auth checks that
  have succeeded, and \<open>checked\<close>, whether one has succeeded since construction or since
  the keep-alive task last ended.
\<close>

record system =
  sess :: session
  env :: world
  locked :: bool
  cancelling :: bool
  threads :: "thread list"
  checks_ok :: nat
  checked :: bool

definition initial :: "world \<Rightarrow> system" where
  "initial w =
     \<lparr>sess = new_session, env = w, locked = False, cancelling = False, threads = [],
      checks_ok = 0, checked = False\<rparr>"

text \<open>
  What can happen next. \<open>Lock i t\<close>: call \<open>i\<close> gets the lock and reads the clock.
  \<open>Status i\<close>, \<open>Reauth i\<close>: its status call, its \<^verbatim>\<open>_reauthenticate()\<close> completes and the
  call runs on to its next await or to its end. \<open>Cancel i\<close>: \<^verbatim>\<open>logout\<close> runs lines
  102-103. \<open>Task_ends\<close>: the cancelled keep-alive task is resumed with
  \<^verbatim>\<open>CancelledError\<close> and leaves its loop. \<open>Logout i\<close>: the call to \<^verbatim>\<open>/logout\<close> completes
  and \<^verbatim>\<open>logout\<close> runs lines 115-116 and returns. \<open>Ping\<close>: the keep-alive loop wakes
  from its sleep and calls \<^verbatim>\<open>_tickle\<close>.
\<close>

datatype event =
    Call_ensure_live
  | Call_logout
  | Lock nat real
  | Status nat
  | Reauth nat
  | Cancel nat
  | Task_ends
  | Logout nat
  | Ping

text \<open>The thread \<open>i\<close> is at, if there is one.\<close>

definition thread_at :: "system \<Rightarrow> nat \<Rightarrow> thread option" where
  "thread_at \<sigma> i = (if i < length (threads \<sigma>) then Some (threads \<sigma> ! i) else None)"

definition move :: "nat \<Rightarrow> thread \<Rightarrow> system \<Rightarrow> system" where
  "move i th \<sigma> = \<sigma>\<lparr>threads := (threads \<sigma>)[i := th]\<rparr>"

text \<open>
  The keep-alive task is running and no \<^verbatim>\<open>cancel()\<close> is waiting for it: the only
  state in which its loop sends a ping.
\<close>

definition live :: "system \<Rightarrow> bool" where
  "live \<sigma> = (pending (sess \<sigma>) \<and> \<not> cancelling \<sigma>)"

text \<open>
  One step, \<open>None\<close> when the event cannot happen in the state. The session is changed
  by the same definitions as before: \<open>try_check\<close> is the status call with the code that
  follows it up to the next await, \<open>reauthenticate\<close> the call at line 61.
\<close>

fun fire :: "event \<Rightarrow> system \<Rightarrow> system option" where
  "fire Call_ensure_live \<sigma> = Some (\<sigma>\<lparr>threads := threads \<sigma> @ [EL_lock]\<rparr>)"
| "fire Call_logout \<sigma> = Some (\<sigma>\<lparr>threads := threads \<sigma> @ [LO_called]\<rparr>)"
| "fire (Lock i t) \<sigma> =
     (if thread_at \<sigma> i = Some EL_lock \<and> \<not> locked \<sigma> then
        (if needs_check t (sess \<sigma>)
         then Some (move i (EL_status t) (\<sigma>\<lparr>locked := True\<rparr>))
         else Some (move i (EL_returned (Inr ())) \<sigma>))
      else None)"
| "fire (Status i) \<sigma> =
     (case thread_at \<sigma> i of
        Some (EL_status t) \<Rightarrow>
          (case try_check (sess \<sigma>) (env \<sigma>) of
             (Inr status, s1, w1) \<Rightarrow>
               Some (move i (EL_returned (Inr ()))
                       (\<sigma>\<lparr>sess := s1\<lparr>last_auth_check := Some t\<rparr>, env := w1, locked := False,
                          checks_ok := Suc (checks_ok \<sigma>), checked := True\<rparr>))
           | (Inl e, s1, w1) \<Rightarrow>
               (if status_code_of e = Some 401
                then Some (move i (EL_reauth t) (\<sigma>\<lparr>sess := s1, env := w1\<rparr>))
                else Some (move i (EL_returned (Inl e))
                             (\<sigma>\<lparr>sess := s1, env := w1, locked := False\<rparr>))))
      | _ \<Rightarrow> None)"
| "fire (Reauth i) \<sigma> =
     (case thread_at \<sigma> i of
        Some (EL_reauth t) \<Rightarrow>
          (case reauthenticate (env \<sigma>) of
             (Inr u, w1) \<Rightarrow> Some (move i (EL_status t) (\<sigma>\<lparr>env := w1\<rparr>))
           | (Inl e, w1) \<Rightarrow>
               Some (move i (EL_returned (Inl e)) (\<sigma>\<lparr>env := w1, locked := False\<rparr>)))
      | _ \<Rightarrow> None)"
| "fire (Cancel i) \<sigma> =
     (if thread_at \<sigma> i = Some LO_called then
        (if pending (sess \<sigma>)
         then Some (move i LO_task (\<sigma>\<lparr>cancelling := True\<rparr>))
         else Some (move i LO_post \<sigma>))
      else None)"
| "fire Task_ends \<sigma> =
     (if pending (sess \<sigma>) \<and> cancelling \<sigma> then
        Some (\<sigma>\<lparr>sess := (sess \<sigma>)\<lparr>keep_alive_task := Some Finished\<rparr>,
                cancelling := False, checked := False,
                threads := map (\<lambda>th. if th = LO_task then LO_post else th) (threads \<sigma>)\<rparr>)
      else None)"
| "fire (Logout i) \<sigma> =
     (if thread_at \<sigma> i = Some LO_post then
        Some (move i LO_returned
                (\<sigma>\<lparr>sess := (sess \<sigma>)\<lparr>session_status := None, last_auth_check := None\<rparr>,
                   env := snd (post ''/logout'' (env \<sigma>))\<rparr>))
      else None)"
| "fire Ping \<sigma> =
     (if live \<sigma> then Some (\<sigma>\<lparr>env := snd (post ''/tickle'' (env \<sigma>))\<rparr>) else None)"

text \<open>A schedule: the events in the order in which they happen.\<close>

fun run :: "event list \<Rightarrow> system \<Rightarrow> system option" where
  "run [] \<sigma> = Some \<sigma>"
| "run (e # es) \<sigma> = (case fire e \<sigma> of None \<Rightarrow> None | Some \<sigma>' \<Rightarrow> run es \<sigma>')"


section \<open>Concrete environments\<close>

text \<open>
  A response as httpx builds it: \<^verbatim>\<open>raise_for_status()\<close> raises unless the status is
  2xx. \<open>always r\<close> answers every attempt with \<open>r\<close>; \<open>script rs r\<close> answers the
  first attempts with \<open>rs\<close>, in order, and every later one with \<open>r\<close>.
\<close>

definition http_response :: "int \<Rightarrow> string \<Rightarrow> string + jval \<Rightarrow> response" where
  "http_response code body js =
     \<lparr>status_code = code,
      raise_for_status = (if 200 \<le> code \<and> code < 300 then None else Some (''HTTP status '' @ str_int code)),
      content = body, json = js\<rparr>"

definition always :: "response \<Rightarrow> world" where
  "always r = \<lparr>responses = (\<lambda>k. Response r), requests = [], slept = []\<rparr>"

definition script :: "response list \<Rightarrow> response \<Rightarrow> world" where
  "script rs r = \<lparr>responses = (\<lambda>k. Response (if k < length rs then rs ! k else r)), requests = [], slept = []\<rparr>"


definition r401 :: response where
  "r401 = http_response 401 [] (Inl ''Expecting value'')"

definition r403 :: response where
  "r403 = http_response 403 [] (Inl ''Expecting value'')"

definition r503 :: response where
  "r503 = http_response 503 [] (Inl ''Expecting value'')"

text \<open>
  The answers used below: a 2xx with an empty body, and 2xx bodies that report the
  session as authenticated or not.
\<close>

definition r200_empty :: response where
  "r200_empty = http_response 200 [] (Inl ''Expecting value'')"

definition authenticated_body :: "bool \<Rightarrow> string" where
  "authenticated_body b =
     ''{'' @ [CHR 0x22] @ ''authenticated'' @ [CHR 0x22] @ '':'' @ (if b then ''true'' else ''false'') @ ''}''"

definition r200_authenticated :: "bool \<Rightarrow> response" where
  "r200_authenticated b =
     http_response 200 (authenticated_body b) (Inr (JObj [(''authenticated'', JBool b)]))"

definition flapping :: world where
  "flapping = script [r401, r200_empty, r401, r200_empty, r200_authenticated True] r200_empty"


definition reauth_forbidden :: world where
  "reauth_forbidden = script [r401, r403] r200_empty"

text \<open>
  A gateway whose every answer reports the session as not authenticated, and one
  whose every answer reports it as authenticated.
\<close>

definition reports_unauthenticated :: world where
  "reports_unauthenticated = always (r200_authenticated False)"

definition reports_authenticated :: world where
  "reports_authenticated = always (r200_authenticated True)"

text \<open>
  A session against a gateway that always reports an authenticated session, as one
  call of \<^verbatim>\<open>logout\<close> passes through it after a successful \<^verbatim>\<open>_ensure_live\<close> at clock 0:
  called, waiting for the cancelled task, about to call \<^verbatim>\<open>/logout\<close>, returned.
\<close>

definition logout_called :: system where
  "logout_called =
     \<lparr>sess = new_session\<lparr>session_status := Some (JObj [(''authenticated'', JBool True)]),
                          keep_alive_task := Some Pending, last_auth_check := Some 0\<rparr>,
      env = reports_authenticated\<lparr>requests := [(''POST'', ''/iserver/auth/status'')]\<rparr>,
      locked = False, cancelling = False,
      threads = [EL_returned (Inr ()), LO_called], checks_ok = 1, checked = True\<rparr>"

definition logout_waiting :: system where
  "logout_waiting =
     logout_called\<lparr>cancelling := True, threads := [EL_returned (Inr ()), LO_task]\<rparr>"

definition logout_posting :: system where
  "logout_posting =
     \<lparr>sess = new_session\<lparr>session_status := Some (JObj [(''authenticated'', JBool True)]),
                          keep_alive_task := Some Finished, last_auth_check := Some 0\<rparr>,
      env = reports_authenticated\<lparr>requests := [(''POST'', ''/iserver/auth/status'')]\<rparr>,
      locked = False, cancelling = False,
      threads = [EL_returned (Inr ()), LO_post], checks_ok = 1, checked = False\<rparr>"

definition logout_returned :: system where
  "logout_returned =
     \<lparr>sess = new_session\<lparr>keep_alive_task := Some Finished\<rparr>,
      env = reports_authenticated\<lparr>requests := [(''POST'', ''/iserver/auth/status''),
                                                 (''POST'', ''/logout'')]\<rparr>,
      locked = False, cancelling = False,
      threads = [EL_returned (Inr ()), LO_returned], checks_ok = 1, checked = False\<rparr>"

text \<open>
  Awaits of a keep-alive loop that sleeps and pings twice and is cancelled in its
  third sleep.
\<close>

definition cancelled_in_third_sleep :: "nat \<Rightarrow> unit awaited \<times> jval awaited" where
  "cancelled_in_third_sleep k =
     (if k < 2 then (Returned (), Returned (JObj [])) else (CancelledError, CancelledError))"

section \<open>The transport: properties\<close>

declare request_loop.simps [simp del]

lemma no_timeout_auth: "contains ''timeout'' (lower ''Authentication required'') = False"
  by (simp add: lower_def lower_char_def)

lemma no_timeout_forbidden: "contains ''timeout'' (lower ''Access forbidden'') = False"
  by (simp add: lower_def lower_char_def)

lemma iteration_5xx:
  "500 \<le> status_code r \<Longrightarrow>
   iteration a mr (Response r) =
     (if int a < mr then Retry
      else Throw (IBAPIError (''Server error: '' @ str_int (status_code r)) (Some (status_code r))))"
  by (simp add: iteration_def)

lemma iteration_401:
  "status_code r = 401 \<Longrightarrow>
   iteration a mr (Response r) = Throw (IBAPIError ''Authentication required'' (Some 401))"
  by (simp add: iteration_def no_timeout_auth)

lemma iteration_403:
  "status_code r = 403 \<Longrightarrow>
   iteration a mr (Response r) = Throw (IBAPIError ''Access forbidden'' (Some 403))"
  by (simp add: iteration_def no_timeout_forbidden)

lemma iteration_ok:
  "status_code r \<noteq> 401 \<Longrightarrow> status_code r \<noteq> 403 \<Longrightarrow> status_code r < 500 \<Longrightarrow>
   raise_for_status r = None \<Longrightarrow>
   iteration a mr (Response r) =
     (if content r = [] then Return (JObj [])
      else case json r of
             Inl m \<Rightarrow> if int a < mr \<and> contains ''timeout'' (lower m) then Retry
                      else Throw (JSONDecodeError m)
           | Inr v \<Rightarrow> Return v)"
  by (simp add: iteration_def split: sum.splits)

lemma request_loop_Return:
  "int a \<le> mr \<Longrightarrow> iteration a mr (responses w (length (requests w))) = Return v \<Longrightarrow>
   request_loop m p mr d a w = (Inr v, w\<lparr>requests := requests w @ [(m, p)]\<rparr>)"
  by (subst request_loop.simps) simp

lemma request_loop_Throw:
  "int a \<le> mr \<Longrightarrow> iteration a mr (responses w (length (requests w))) = Throw e \<Longrightarrow>
   request_loop m p mr d a w = (Inl e, w\<lparr>requests := requests w @ [(m, p)]\<rparr>)"
  by (subst request_loop.simps) simp

lemma request_loop_Retry:
  "int a \<le> mr \<Longrightarrow> iteration a mr (responses w (length (requests w))) = Retry \<Longrightarrow>
   request_loop m p mr d a w =
     request_loop m p mr d (Suc a)
       (w\<lparr>requests := requests w @ [(m, p)], slept := slept w @ [d * 2 ^ a]\<rparr>)"
  by (subst request_loop.simps) simp


lemma iteration_Retry_lt: "iteration a mr r = Retry \<Longrightarrow> int a < mr"
proof (cases r)
  case (Response resp)
  assume "iteration a mr r = Retry"
  with Response show ?thesis
    by (auto simp: iteration_def no_timeout_auth no_timeout_forbidden
             split: if_splits option.splits sum.splits)
next
  case (ClientError e)
  assume "iteration a mr r = Retry"
  with ClientError show ?thesis
    by (cases e) (auto simp: iteration_def split: if_splits)
qed

lemma request_loop_log:
  "\<exists>n. requests (snd (request_loop m p mr d a w)) = requests w @ replicate n (m, p)
     \<and> slept (snd (request_loop m p mr d a w)) = slept w @ map (\<lambda>k. d * 2 ^ k) [a..<a + (n - 1)]
     \<and> responses (snd (request_loop m p mr d a w)) = responses w
     \<and> (int a \<le> mr \<longrightarrow> 1 \<le> n)
     \<and> int (a + n) \<le> max (mr + 1) (int a)"
proof (induction m p mr d a w rule: request_loop.induct)
  case (1 m p mr d a w)
  show ?case
  proof (cases "int a \<le> mr")
    case False
    then have "request_loop m p mr d a w =
                 (Inl (IBAPIError (''Max retries ('' @ str_int mr @ '') exceeded'') None), w)"
      by (subst request_loop.simps) simp
    with False show ?thesis
      by (intro exI[of _ 0]) simp
  next
    case True
    show ?thesis
    proof (cases "iteration a mr (responses w (length (requests w)))")
      case (Return v)
      with True show ?thesis
        by (intro exI[of _ 1]) (simp add: request_loop_Return)
    next
      case (Throw e)
      with True show ?thesis
        by (intro exI[of _ 1]) (simp add: request_loop_Throw)
    next
      case Retry
      let ?w1 = "w\<lparr>requests := requests w @ [(m, p)], slept := slept w @ [d * 2 ^ a]\<rparr>"
      from Retry have lt: "int a < mr" by (rule iteration_Retry_lt)
      from True have c: "int a < mr + 1" by simp
      from "1.IH"[OF c Retry] obtain n where
        n: "requests (snd (request_loop m p mr d (Suc a) ?w1)) = requests ?w1 @ replicate n (m, p)"
           "slept (snd (request_loop m p mr d (Suc a) ?w1)) =
              slept ?w1 @ map (\<lambda>k. d * 2 ^ k) [Suc a..<Suc a + (n - 1)]"
           "responses (snd (request_loop m p mr d (Suc a) ?w1)) = responses ?w1"
           "int (Suc a) \<le> mr \<longrightarrow> 1 \<le> n"
           "int (Suc a + n) \<le> max (mr + 1) (int (Suc a))"
        by blast
      from lt n(4) have n1: "1 \<le> n" by simp
      have eq: "request_loop m p mr d a w = request_loop m p mr d (Suc a) ?w1"
        using True Retry by (rule request_loop_Retry)
      have up: "[a..<a + (Suc n - 1)] = a # [Suc a..<Suc a + (n - 1)]"
        using n1 by (simp add: upt_conv_Cons)
      show ?thesis
        unfolding eq
        apply (rule exI[of _ "Suc n"])
        using n n1 lt up by (simp add: replicate_append_same)
    qed
  qed
qed

lemma loop_all_5xx:
  assumes "int a \<le> mr"
    and "\<forall>k \<le> nat mr - a. \<exists>r. responses w (length (requests w) + k) = Response r \<and> 500 \<le> status_code r"
    and "responses w (length (requests w) + (nat mr - a)) = Response rl"
  shows "request_loop m p mr d a w =
           (Inl (IBAPIError (''Server error: '' @ str_int (status_code rl)) (Some (status_code rl))),
            w\<lparr>requests := requests w @ replicate (nat mr - a + 1) (m, p),
               slept := slept w @ map (\<lambda>k. d * 2 ^ k) [a..<nat mr]\<rparr>)"
  using assms
proof (induction "nat mr - a" arbitrary: a w)
  case 0
  then have a: "int a = mr" by simp
  from 0 have r: "responses w (length (requests w)) = Response rl" by simp
  from 0(3) have "\<exists>r. responses w (length (requests w) + 0) = Response r \<and> 500 \<le> status_code r"
    by blast
  with r have ge: "500 \<le> status_code rl" by simp
  show ?case
    using a r ge 0(1) by (simp add: request_loop_Throw iteration_5xx)
next
  case (Suc n)
  then have lt: "int a < mr" by simp
  from Suc(4) have "\<exists>r. responses w (length (requests w) + 0) = Response r \<and> 500 \<le> status_code r"
    by blast
  then obtain r0 where r0: "responses w (length (requests w)) = Response r0" "500 \<le> status_code r0"
    by auto
  let ?w1 = "w\<lparr>requests := requests w @ [(m, p)], slept := slept w @ [d * 2 ^ a]\<rparr>"
  have step: "request_loop m p mr d a w = request_loop m p mr d (Suc a) ?w1"
    using lt r0 by (simp add: request_loop_Retry iteration_5xx)
  have n: "n = nat mr - Suc a" using Suc(2) by simp
  have le': "int (Suc a) \<le> mr" using lt by simp
  have all': "\<forall>k \<le> nat mr - Suc a. \<exists>r. responses ?w1 (length (requests ?w1) + k) = Response r \<and> 500 \<le> status_code r"
  proof (intro allI impI)
    fix k assume "k \<le> nat mr - Suc a"
    then have "Suc k \<le> nat mr - a" using Suc(2) by simp
    with Suc(4) have "\<exists>r. responses w (length (requests w) + Suc k) = Response r \<and> 500 \<le> status_code r"
      by blast
    then show "\<exists>r. responses ?w1 (length (requests ?w1) + k) = Response r \<and> 500 \<le> status_code r"
      by simp
  qed
  have sd: "nat mr - a = Suc (nat mr - Suc a)" using Suc(2) by simp
  with Suc(5) have last': "responses ?w1 (length (requests ?w1) + (nat mr - Suc a)) = Response rl"
    by simp
  have up: "[a..<nat mr] = a # [Suc a..<nat mr]"
    using lt by (simp add: upt_conv_Cons)
  show ?case
    unfolding step Suc.hyps(1)[OF n le' all' last']
    using up by (simp add: sd)
qed

text \<open>
  C4. A response with status 401 makes the transport fail at once with
  \<open>IBAPIError ''Authentication required'' (Some 401)\<close>, and one with status 403 with
  \<open>IBAPIError ''Access forbidden'' (Some 403)\<close>: at whatever loop index the response
  arrives, for every retry configuration, the loop ends with that one attempt logged and
  no sleep. When it is the answer to the first attempt, the call has made exactly one
  attempt.
\<close>

theorem auth_errors_never_retried:
  assumes "int attempt \<le> max_retries"
    and "responses w (length (requests w)) = Response r"
    and "status_code r = 401 \<or> status_code r = 403"
  shows "request_loop m p max_retries d attempt w =
           (Inl (IBAPIError (if status_code r = 401 then ''Authentication required''
                             else ''Access forbidden'') (Some (status_code r))),
            w\<lparr>requests := requests w @ [(m, p)]\<rparr>)
       \<and> (attempt = 0 \<longrightarrow>
            request_with_retry m p max_retries d w = request_loop m p max_retries d attempt w
          \<and> attempts w (snd (request_with_retry m p max_retries d w)) = 1
          \<and> slept (snd (request_with_retry m p max_retries d w)) = slept w)"
proof -
  have loop: "request_loop m p max_retries d attempt w =
           (Inl (IBAPIError (if status_code r = 401 then ''Authentication required''
                             else ''Access forbidden'') (Some (status_code r))),
            w\<lparr>requests := requests w @ [(m, p)]\<rparr>)"
    using assms by (auto simp: request_loop_Throw iteration_401 iteration_403)
  then show ?thesis
    by (auto simp: request_with_retry_def attempts_def)
qed

theorem auth_errors_never_retried_witness:
  "request_with_retry ''POST'' ''/iserver/auth/status'' 3 1 (always r401)
     = (Inl (IBAPIError ''Authentication required'' (Some 401)),
        (always r401)\<lparr>requests := [(''POST'', ''/iserver/auth/status'')]\<rparr>)
   \<and> attempts (always r401)
        (snd (request_with_retry ''POST'' ''/iserver/auth/status'' 3 1 (always r401))) = 1"
proof -
  have h1: "int 0 \<le> 3" by simp
  have h2: "responses (always r401) (length (requests (always r401))) = Response r401"
    by (simp add: always_def)
  have h3: "status_code r401 = 401 \<or> status_code r401 = 403"
    by (simp add: r401_def http_response_def)
  have r: "requests (always r401) = []" "status_code r401 = 401"
    by (simp_all add: always_def r401_def http_response_def)
  from auth_errors_never_retried [OF h1 h2 h3, of "''POST''" "''/iserver/auth/status''" 1]
  show ?thesis by (simp add: r attempts_def)
qed

text \<open>
  C3. When every attempt of a call is answered with a status of 500 or more, the call
  makes exactly \<open>max_retries + 1\<close> attempts and raises the \<open>IBAPIError\<close> for a server
  error that carries the status code of the last response; and whatever the answers
  are, a call never makes more than \<open>max_retries + 1\<close> attempts. Here \<open>max_retries\<close>
  is a retry count, \<open>0\<close> or more (the wrappers always pass 3); for a negative one
  \<^verbatim>\<open>range(max_retries + 1)\<close> is empty and the call raises without an attempt.
\<close>

theorem server_errors_exhaust_retries:
  assumes "0 \<le> max_retries"
  shows "((\<forall>k \<le> nat max_retries. \<exists>r. responses w (length (requests w) + k) = Response r
                                        \<and> 500 \<le> status_code r)
          \<and> responses w (length (requests w) + nat max_retries) = Response r_last
          \<longrightarrow> fst (request_with_retry m p max_retries d w) =
                Inl (IBAPIError (''Server error: '' @ str_int (status_code r_last))
                       (Some (status_code r_last)))
              \<and> int (attempts w (snd (request_with_retry m p max_retries d w))) = max_retries + 1)
       \<and> int (attempts w (snd (request_with_retry m p max_retries d w))) \<le> max_retries + 1"
proof (intro conjI impI)
  assume h: "(\<forall>k \<le> nat max_retries. \<exists>r. responses w (length (requests w) + k) = Response r
                                        \<and> 500 \<le> status_code r)
          \<and> responses w (length (requests w) + nat max_retries) = Response r_last"
  have eq: "request_loop m p max_retries d 0 w =
           (Inl (IBAPIError (''Server error: '' @ str_int (status_code r_last)) (Some (status_code r_last))),
            w\<lparr>requests := requests w @ replicate (nat max_retries - 0 + 1) (m, p),
               slept := slept w @ map (\<lambda>k. d * 2 ^ k) [0..<nat max_retries]\<rparr>)"
    using assms h by (intro loop_all_5xx) simp_all
  show "fst (request_with_retry m p max_retries d w) =
                Inl (IBAPIError (''Server error: '' @ str_int (status_code r_last))
                       (Some (status_code r_last)))"
    by (simp add: request_with_retry_def eq)
  show "int (attempts w (snd (request_with_retry m p max_retries d w))) = max_retries + 1"
    using assms by (simp add: request_with_retry_def eq attempts_def)
next
  from request_loop_log [of m p max_retries d 0 w] obtain n where
    n: "requests (snd (request_loop m p max_retries d 0 w)) = requests w @ replicate n (m, p)"
       "int (0 + n) \<le> max (max_retries + 1) (int 0)"
    by blast
  then show "int (attempts w (snd (request_with_retry m p max_retries d w))) \<le> max_retries + 1"
    using assms by (simp add: request_with_retry_def attempts_def)
qed

theorem server_errors_exhaust_retries_witness:
  "fst (request_with_retry ''GET'' ''/portfolio/accounts'' 3 1 (always r503))
     = Inl (IBAPIError ''Server error: 503'' (Some 503))
   \<and> attempts (always r503)
        (snd (request_with_retry ''GET'' ''/portfolio/accounts'' 3 1 (always r503))) = 4"
proof -
  have h1: "(0::int) \<le> 3" by simp
  have h2: "(\<forall>k \<le> nat 3. \<exists>r. responses (always r503) (length (requests (always r503)) + k) = Response r
                                        \<and> 500 \<le> status_code r)
          \<and> responses (always r503) (length (requests (always r503)) + nat 3) = Response r503"
    by (simp add: always_def r503_def http_response_def)
  have s: "str_int 503 = ''503''" "status_code r503 = 503"
    by (simp_all add: r503_def http_response_def str_int_def digit_char_def)
  from server_errors_exhaust_retries [OF h1, of "always r503" r503 "''GET''" "''/portfolio/accounts''" 1] h2
  show ?thesis by (simp add: s)
qed


section \<open>The session adapter: properties\<close>

lemma iteration_answers:
  "answers r v \<Longrightarrow> iteration a mr (Response r) = Return v"
  by (auto simp: answers_def iteration_ok split: if_splits)

lemma post_answers:
  assumes "responses w (length (requests w)) = Response r" and "answers r v"
  shows "post path w = (Inr v, w\<lparr>requests := requests w @ [(''POST'', path)]\<rparr>)"
  using assms by (simp add: post_def request_with_retry_def request_loop_Return iteration_answers)

lemma post_401:
  assumes "responses w (length (requests w)) = Response r" and "status_code r = 401"
  shows "post path w = (Inl (IBAPIError ''Authentication required'' (Some 401)),
                        w\<lparr>requests := requests w @ [(''POST'', path)]\<rparr>)"
  using assms by (simp add: post_def request_with_retry_def request_loop_Throw iteration_401)

lemma post_403:
  assumes "responses w (length (requests w)) = Response r" and "status_code r = 403"
  shows "post path w = (Inl (IBAPIError ''Access forbidden'' (Some 403)),
                        w\<lparr>requests := requests w @ [(''POST'', path)]\<rparr>)"
  using assms by (simp add: post_def request_with_retry_def request_loop_Throw iteration_403)

lemma post_log:
  "\<exists>n. requests (snd (post path w)) = requests w @ (''POST'', path) # replicate n (''POST'', path)
     \<and> responses (snd (post path w)) = responses w"
proof -
  from request_loop_log [of "''POST''" path 3 1 0 w] obtain n where
    n: "requests (snd (request_loop ''POST'' path 3 1 0 w)) = requests w @ replicate n (''POST'', path)"
       "responses (snd (request_loop ''POST'' path 3 1 0 w)) = responses w"
       "int 0 \<le> 3 \<longrightarrow> 1 \<le> n"
    by blast
  then obtain k where "n = Suc k" by (cases n) auto
  with n show ?thesis
    by (intro exI[of _ k]) (simp add: post_def request_with_retry_def)
qed

lemma check_auth_status_Inr:
  "try_check s w = (Inr v, s1, w1) \<Longrightarrow> check_auth_status s w = Some (Inr v, s1, w1)"
  by (subst check_auth_status.simps) simp

lemma check_auth_status_reauth:
  "try_check s w = (Inl (IBAPIError m (Some 401)), s1, w1) \<Longrightarrow>
   reauthenticate w1 = (Inr u, w2) \<Longrightarrow>
   check_auth_status s w = check_auth_status s1 w2"
  by (subst check_auth_status.simps) simp

lemma check_auth_status_reauth_failed:
  "try_check s w = (Inl (IBAPIError m (Some 401)), s1, w1) \<Longrightarrow>
   reauthenticate w1 = (Inl e, w2) \<Longrightarrow>
   check_auth_status s w = Some (Inl e, s1, w2)"
  by (subst check_auth_status.simps) simp

lemma check_auth_status_raise:
  "try_check s w = (Inl e, s1, w1) \<Longrightarrow> status_code_of e \<noteq> Some 401 \<Longrightarrow>
   check_auth_status s w = Some (Inl e, s1, w1)"
  by (subst check_auth_status.simps) (cases e; simp)

lemma try_check_not_authenticated:
  assumes "post ''/iserver/auth/status'' w = (Inr (JObj kvs), w1)"
    and "\<not> truthy (dict_get kvs ''authenticated'' (JBool False))"
  shows "try_check s w =
           (Inl (IBAPIError ''Session not authenticated. Please log in through the IB Gateway.'' None),
            s\<lparr>session_status := Some (JObj kvs)\<rparr>, w1)"
  using assms by (simp add: try_check_def)

lemma try_check_authenticated:
  assumes "post ''/iserver/auth/status'' w = (Inr (JObj kvs), w1)"
    and "truthy (dict_get kvs ''authenticated'' (JBool False))"
  shows "try_check s w =
           (Inr (JObj kvs), start_keep_alive (s\<lparr>session_status := Some (JObj kvs)\<rparr>), w1)"
  using assms by (simp add: try_check_def)

lemma try_check_post_raises:
  assumes "post ''/iserver/auth/status'' w = (Inl e, w1)"
  shows "try_check s w = (Inl e, s, w1)"
  using assms by (simp add: try_check_def)

text \<open>
  C9. \<^verbatim>\<open>_check_auth_status\<close> raises the "Session not authenticated" \<open>IBAPIError\<close>
  whenever the returned map has no key \<^verbatim>\<open>authenticated\<close> or holds a falsy value under
  it, having stored the map as the session status. A 2xx answer with an empty body is
  such a case: the transport returns the empty map for it.
\<close>

theorem unauthenticated_when_key_absent_or_falsy:
  assumes "post ''/iserver/auth/status'' w = (Inr (JObj kvs), w1)"
    and "map_of kvs ''authenticated'' = None
         \<or> (\<exists>v. map_of kvs ''authenticated'' = Some v \<and> \<not> truthy v)"
  shows "check_auth_status s w =
           Some (Inl (IBAPIError
                        ''Session not authenticated. Please log in through the IB Gateway.'' None),
                 s\<lparr>session_status := Some (JObj kvs)\<rparr>, w1)
       \<and> (\<forall>r. responses w (length (requests w)) = Response r
                \<and> status_code r \<noteq> 401 \<and> status_code r \<noteq> 403 \<and> status_code r < 500
                \<and> raise_for_status r = None \<and> content r = []
              \<longrightarrow> post ''/iserver/auth/status'' w =
                    (Inr (JObj []), w\<lparr>requests := requests w @ [(''POST'', ''/iserver/auth/status'')]\<rparr>)
                  \<and> kvs = [])"
proof (intro conjI allI impI)
  from assms(2) have nt: "\<not> truthy (dict_get kvs ''authenticated'' (JBool False))"
    by (auto simp: dict_get_def)
  from try_check_not_authenticated [OF assms(1) nt]
  show "check_auth_status s w =
           Some (Inl (IBAPIError
                        ''Session not authenticated. Please log in through the IB Gateway.'' None),
                 s\<lparr>session_status := Some (JObj kvs)\<rparr>, w1)"
    by (simp add: check_auth_status_raise)
next
  fix r
  assume r: "responses w (length (requests w)) = Response r
                \<and> status_code r \<noteq> 401 \<and> status_code r \<noteq> 403 \<and> status_code r < 500
                \<and> raise_for_status r = None \<and> content r = []"
  then have a: "answers r (JObj [])" by (simp add: answers_def)
  from r a show p: "post ''/iserver/auth/status'' w =
                    (Inr (JObj []), w\<lparr>requests := requests w @ [(''POST'', ''/iserver/auth/status'')]\<rparr>)"
    by (simp add: post_answers)
  with assms(1) show "kvs = []" by simp
qed

lemma answers_r200_empty: "answers r200_empty (JObj [])"
  by (simp add: answers_def r200_empty_def http_response_def)

lemma answers_r200_authenticated:
  "answers (r200_authenticated b) (JObj [(''authenticated'', JBool b)])"
  by (simp add: answers_def r200_authenticated_def http_response_def authenticated_body_def)

lemma status_code_r401: "status_code r401 = 401"
  by (simp add: r401_def http_response_def)

theorem unauthenticated_when_key_absent_or_falsy_witness:
  "check_auth_status new_session (always r200_empty) =
     Some (Inl (IBAPIError
                  ''Session not authenticated. Please log in through the IB Gateway.'' None),
           new_session\<lparr>session_status := Some (JObj [])\<rparr>,
           (always r200_empty)\<lparr>requests := [(''POST'', ''/iserver/auth/status'')]\<rparr>)"
proof -
  let ?w = "always r200_empty"
  have r: "responses ?w (length (requests ?w)) = Response r200_empty" "requests ?w = []"
    by (simp_all add: always_def)
  have h1: "post ''/iserver/auth/status'' ?w =
              (Inr (JObj []), ?w\<lparr>requests := requests ?w @ [(''POST'', ''/iserver/auth/status'')]\<rparr>)"
    using r(1) answers_r200_empty by (rule post_answers)
  have h2: "map_of [] ''authenticated'' = None
         \<or> (\<exists>v. map_of [] ''authenticated'' = Some v \<and> \<not> truthy v)"
    by simp
  from unauthenticated_when_key_absent_or_falsy [OF h1 h2, of new_session]
  show ?thesis by (simp add: r(2))
qed

lemma reauthenticate_returns:
  "post ''/iserver/reauthenticate'' w = (Inr v, w1) \<Longrightarrow> reauthenticate w = (Inr (), w1)"
  by (simp add: reauthenticate_def)

lemma reauthenticate_raises:
  "post ''/iserver/reauthenticate'' w = (Inl e, w1) \<Longrightarrow>
   reauthenticate w =
     (Inl (IBAPIError ''Reauthentication failed. Manual login may be required.'' None), w1)"
  by (simp add: reauthenticate_def)


lemma script_simps:
  "responses (script rs r) k = Response (if k < length rs then rs ! k else r)"
  "requests (script rs r) = []"
  "slept (script rs r) = []"
  by (simp_all add: script_def)

lemma check_auth_status_authenticated:
  assumes "responses w (length (requests w)) = Response r"
    and "answers r (JObj kvs)"
    and "truthy (dict_get kvs ''authenticated'' (JBool False))"
  shows "check_auth_status s w =
           Some (Inr (JObj kvs), start_keep_alive (s\<lparr>session_status := Some (JObj kvs)\<rparr>),
                 w\<lparr>requests := requests w @ [(''POST'', ''/iserver/auth/status'')]\<rparr>)"
  by (rule check_auth_status_Inr,
      rule try_check_authenticated [OF post_answers [OF assms(1,2)] assms(3)])

lemma check_auth_status_forbidden:
  assumes "responses w (length (requests w)) = Response r" and "status_code r = 403"
  shows "check_auth_status s w =
           Some (Inl (IBAPIError ''Access forbidden'' (Some 403)), s,
                 w\<lparr>requests := requests w @ [(''POST'', ''/iserver/auth/status'')]\<rparr>)"
  by (rule check_auth_status_raise,
      rule try_check_post_raises [OF post_403 [OF assms]]) simp

lemma reauth_cycle:
  assumes "responses w (length (requests w)) = Response r0" and "status_code r0 = 401"
    and "responses w (Suc (length (requests w))) = Response r1" and "answers r1 v"
  shows "check_auth_status s w =
           check_auth_status s
             (w\<lparr>requests := requests w @ [(''POST'', ''/iserver/auth/status''),
                                            (''POST'', ''/iserver/reauthenticate'')]\<rparr>)"
proof -
  let ?w1 = "w\<lparr>requests := requests w @ [(''POST'', ''/iserver/auth/status'')]\<rparr>"
  have t: "try_check s w = (Inl (IBAPIError ''Authentication required'' (Some 401)), s, ?w1)"
    by (rule try_check_post_raises [OF post_401 [OF assms(1,2)]])
  have "responses ?w1 (length (requests ?w1)) = Response r1"
    using assms(3) by simp
  from post_answers [OF this assms(4), of "''/iserver/reauthenticate''"]
  have "reauthenticate ?w1 =
          (Inr (), ?w1\<lparr>requests := requests ?w1 @ [(''POST'', ''/iserver/reauthenticate'')]\<rparr>)"
    by (rule reauthenticate_returns)
  from check_auth_status_reauth [OF t this] show ?thesis by simp
qed

lemma reauth_cycles:
  assumes "\<forall>k<n. (\<exists>r. responses w (length (requests w) + 2 * k) = Response r \<and> status_code r = 401)
               \<and> (\<exists>r v. responses w (length (requests w) + 2 * k + 1) = Response r \<and> answers r v)"
  shows "check_auth_status s w =
           check_auth_status s
             (w\<lparr>requests := requests w @
                  concat (replicate n [(''POST'', ''/iserver/auth/status''),
                                       (''POST'', ''/iserver/reauthenticate'')])\<rparr>)"
  using assms
proof (induction n arbitrary: w)
  case 0
  show ?case by simp
next
  case (Suc n)
  let ?w2 = "w\<lparr>requests := requests w @ [(''POST'', ''/iserver/auth/status''),
                                           (''POST'', ''/iserver/reauthenticate'')]\<rparr>"
  from Suc.prems have
    "(\<exists>r. responses w (length (requests w) + 2 * 0) = Response r \<and> status_code r = 401)
     \<and> (\<exists>r v. responses w (length (requests w) + 2 * 0 + 1) = Response r \<and> answers r v)"
    by blast
  then obtain r0 r1 v where
    first: "responses w (length (requests w)) = Response r0" "status_code r0 = 401"
           "responses w (Suc (length (requests w))) = Response r1" "answers r1 v"
    by auto
  have step: "check_auth_status s w = check_auth_status s ?w2"
    using first by (rule reauth_cycle)
  have rest: "\<forall>k<n. (\<exists>r. responses ?w2 (length (requests ?w2) + 2 * k) = Response r \<and> status_code r = 401)
               \<and> (\<exists>r v. responses ?w2 (length (requests ?w2) + 2 * k + 1) = Response r \<and> answers r v)"
  proof (intro allI impI)
    fix k assume "k < n"
    then have "Suc k < Suc n" by simp
    with Suc.prems have
      "(\<exists>r. responses w (length (requests w) + 2 * Suc k) = Response r \<and> status_code r = 401)
       \<and> (\<exists>r v. responses w (length (requests w) + 2 * Suc k + 1) = Response r \<and> answers r v)"
      by blast
    then show "(\<exists>r. responses ?w2 (length (requests ?w2) + 2 * k) = Response r \<and> status_code r = 401)
               \<and> (\<exists>r v. responses ?w2 (length (requests ?w2) + 2 * k + 1) = Response r \<and> answers r v)"
      by simp
  qed
  show ?case
    unfolding step Suc.IH [OF rest] by simp
qed

lemma status_code_r403: "status_code r403 = 403"
  by (simp add: r403_def http_response_def)

lemma needs_check_new_session: "needs_check t new_session"
  by (simp add: needs_check_def new_session_def)

lemma check_flapping:
  "check_auth_status new_session flapping =
     Some (Inr (JObj [(''authenticated'', JBool True)]),
           new_session\<lparr>session_status := Some (JObj [(''authenticated'', JBool True)]),
                        keep_alive_task := Some Pending\<rparr>,
           flapping\<lparr>requests := [(''POST'', ''/iserver/auth/status''),
                                   (''POST'', ''/iserver/reauthenticate''),
                                   (''POST'', ''/iserver/auth/status''),
                                   (''POST'', ''/iserver/reauthenticate''),
                                   (''POST'', ''/iserver/auth/status'')]\<rparr>)"
proof -
  let ?st = "(''POST'', ''/iserver/auth/status'')" and ?re = "(''POST'', ''/iserver/reauthenticate'')"
  let ?w2 = "flapping\<lparr>requests := [?st, ?re]\<rparr>"
  let ?w4 = "flapping\<lparr>requests := [?st, ?re, ?st, ?re]\<rparr>"
  have c1: "check_auth_status new_session flapping = check_auth_status new_session ?w2"
    using reauth_cycle [of flapping r401 r200_empty "JObj []" new_session]
    by (simp add: flapping_def script_simps status_code_r401 answers_r200_empty)
  have c2: "check_auth_status new_session ?w2 = check_auth_status new_session ?w4"
    using reauth_cycle [of ?w2 r401 r200_empty "JObj []" new_session]
    by (simp add: flapping_def script_simps status_code_r401 answers_r200_empty)
  have c3: "check_auth_status new_session ?w4 =
              Some (Inr (JObj [(''authenticated'', JBool True)]),
                    start_keep_alive (new_session\<lparr>session_status := Some (JObj [(''authenticated'', JBool True)])\<rparr>),
                    ?w4\<lparr>requests := requests ?w4 @ [?st]\<rparr>)"
    by (rule check_auth_status_authenticated [of _ "r200_authenticated True"])
       (simp_all add: flapping_def script_simps answers_r200_authenticated dict_get_def)
  show ?thesis
    unfolding c1 c2 c3 by (simp add: start_keep_alive_def new_session_def)
qed

text \<open>
  The run that C1 excludes: the status check is answered 401 twice, re-authentication
  returns both times, and the third status check reports an authenticated session. One
  call of \<^verbatim>\<open>_ensure_live\<close> makes two re-authentication calls and three status checks,
  and succeeds.
\<close>

theorem reauth_not_bounded_counterexample:
  "ensure_live 0 new_session flapping =
     Some (Inr (),
           new_session\<lparr>session_status := Some (JObj [(''authenticated'', JBool True)]),
                        keep_alive_task := Some Pending,
                        last_auth_check := Some 0\<rparr>,
           flapping\<lparr>requests := [(''POST'', ''/iserver/auth/status''),
                                   (''POST'', ''/iserver/reauthenticate''),
                                   (''POST'', ''/iserver/auth/status''),
                                   (''POST'', ''/iserver/reauthenticate''),
                                   (''POST'', ''/iserver/auth/status'')]\<rparr>)
   \<and> calls_to ''/iserver/reauthenticate''
        (flapping\<lparr>requests := [(''POST'', ''/iserver/auth/status''),
                                (''POST'', ''/iserver/reauthenticate''),
                                (''POST'', ''/iserver/auth/status''),
                                (''POST'', ''/iserver/reauthenticate''),
                                (''POST'', ''/iserver/auth/status'')]\<rparr>) = 2
   \<and> calls_to ''/iserver/auth/status''
        (flapping\<lparr>requests := [(''POST'', ''/iserver/auth/status''),
                                (''POST'', ''/iserver/reauthenticate''),
                                (''POST'', ''/iserver/auth/status''),
                                (''POST'', ''/iserver/reauthenticate''),
                                (''POST'', ''/iserver/auth/status'')]\<rparr>) = 3"
  by (simp add: ensure_live_def needs_check_new_session check_flapping calls_to_def)

lemma calls_to_append:
  "calls_to path (w\<lparr>requests := requests w @ xs\<rparr>) =
     calls_to path w + length (filter (\<lambda>(m, p). p = path) xs)"
  by (simp add: calls_to_def)

lemma filter_cycles:
  "length (filter (\<lambda>(m, p). p = ''/iserver/reauthenticate'')
             (concat (replicate n [(''POST'', ''/iserver/auth/status''),
                                   (''POST'', ''/iserver/reauthenticate'')]))) = n"
  by (induction n) simp_all

text \<open>
  C1, as the code has it. A status check that fails with 401 is followed by one call of
  \<^verbatim>\<open>_reauthenticate\<close>. When that call raises, the caller receives the
  "Reauthentication failed" error and nothing more is requested. When it returns, the
  status check is made again by a recursive call that is handled in the same way, so
  there are as many re-authentication cycles as there are consecutive 401 answers to the
  status check: \<open>n\<close> such cycles leave \<open>n\<close> more calls to the re-authentication
  endpoint in the log, and the check goes on from there. A check that fails with another
  error, the retried one too, raises that error unchanged. (The depth limit of the Python
  stack is not part of the model.)
\<close>

theorem reauth_cycle_repeats:
  assumes "\<forall>k<n. (\<exists>r. responses w (length (requests w) + 2 * k) = Response r \<and> status_code r = 401)
               \<and> (\<exists>r v. responses w (length (requests w) + 2 * k + 1) = Response r \<and> answers r v)"
  shows "check_auth_status s w =
           check_auth_status s
             (w\<lparr>requests := requests w @
                  concat (replicate n [(''POST'', ''/iserver/auth/status''),
                                       (''POST'', ''/iserver/reauthenticate'')])\<rparr>)
       \<and> calls_to ''/iserver/reauthenticate''
             (w\<lparr>requests := requests w @
                  concat (replicate n [(''POST'', ''/iserver/auth/status''),
                                       (''POST'', ''/iserver/reauthenticate'')])\<rparr>)
           = calls_to ''/iserver/reauthenticate'' w + n
       \<and> (try_check s w = (Inl (IBAPIError m (Some 401)), s1, w1)
            \<and> post ''/iserver/reauthenticate'' w1 = (Inl e, w2)
          \<longrightarrow> check_auth_status s w =
                Some (Inl (IBAPIError ''Reauthentication failed. Manual login may be required.''
                             None), s1, w2))
       \<and> (try_check s w = (Inl e', s1', w1') \<and> status_code_of e' \<noteq> Some 401
          \<longrightarrow> check_auth_status s w = Some (Inl e', s1', w1'))"
proof (intro conjI impI)
  show "check_auth_status s w =
           check_auth_status s
             (w\<lparr>requests := requests w @
                  concat (replicate n [(''POST'', ''/iserver/auth/status''),
                                       (''POST'', ''/iserver/reauthenticate'')])\<rparr>)"
    using assms by (rule reauth_cycles)
  show "calls_to ''/iserver/reauthenticate''
             (w\<lparr>requests := requests w @
                  concat (replicate n [(''POST'', ''/iserver/auth/status''),
                                       (''POST'', ''/iserver/reauthenticate'')])\<rparr>)
           = calls_to ''/iserver/reauthenticate'' w + n"
    unfolding calls_to_append filter_cycles ..
next
  assume "try_check s w = (Inl (IBAPIError m (Some 401)), s1, w1)
            \<and> post ''/iserver/reauthenticate'' w1 = (Inl e, w2)"
  then show "check_auth_status s w =
                Some (Inl (IBAPIError ''Reauthentication failed. Manual login may be required.''
                             None), s1, w2)"
    by (auto intro: check_auth_status_reauth_failed reauthenticate_raises)
next
  assume "try_check s w = (Inl e', s1', w1') \<and> status_code_of e' \<noteq> Some 401"
  then show "check_auth_status s w = Some (Inl e', s1', w1')"
    by (auto intro: check_auth_status_raise)
qed

lemma flapping_cycles:
  "\<forall>k<2. (\<exists>r. responses flapping (length (requests flapping) + 2 * k) = Response r \<and> status_code r = 401)
        \<and> (\<exists>r v. responses flapping (length (requests flapping) + 2 * k + 1) = Response r \<and> answers r v)"
proof (intro allI impI)
  fix k :: nat assume "k < 2"
  then have "k = 0 \<or> k = 1" by auto
  then show "(\<exists>r. responses flapping (length (requests flapping) + 2 * k) = Response r \<and> status_code r = 401)
        \<and> (\<exists>r v. responses flapping (length (requests flapping) + 2 * k + 1) = Response r \<and> answers r v)"
    using answers_r200_empty
    by (auto simp: flapping_def script_simps status_code_r401)
qed

lemma try_check_reauth_forbidden:
  "try_check new_session reauth_forbidden =
     (Inl (IBAPIError ''Authentication required'' (Some 401)), new_session,
      reauth_forbidden\<lparr>requests := [(''POST'', ''/iserver/auth/status'')]\<rparr>)"
  using try_check_post_raises [OF post_401 [of reauth_forbidden r401 "''/iserver/auth/status''"],
          of new_session]
  by (simp add: reauth_forbidden_def script_simps status_code_r401)

lemma post_reauth_forbidden:
  "post ''/iserver/reauthenticate''
     (reauth_forbidden\<lparr>requests := [(''POST'', ''/iserver/auth/status'')]\<rparr>) =
     (Inl (IBAPIError ''Access forbidden'' (Some 403)),
      reauth_forbidden\<lparr>requests := [(''POST'', ''/iserver/auth/status''),
                                     (''POST'', ''/iserver/reauthenticate'')]\<rparr>)"
  using post_403 [of "reauth_forbidden\<lparr>requests := [(''POST'', ''/iserver/auth/status'')]\<rparr>"
                     r403 "''/iserver/reauthenticate''"]
  by (simp add: reauth_forbidden_def script_simps status_code_r403)

lemma try_check_always_forbidden:
  "try_check new_session (always r403) =
     (Inl (IBAPIError ''Access forbidden'' (Some 403)), new_session,
      (always r403)\<lparr>requests := [(''POST'', ''/iserver/auth/status'')]\<rparr>)"
  using try_check_post_raises [OF post_403 [of "always r403" r403 "''/iserver/auth/status''"],
          of new_session]
  by (simp add: always_def status_code_r403)

theorem reauth_cycle_repeats_witness:
  "check_auth_status new_session flapping =
     check_auth_status new_session
       (flapping\<lparr>requests := [(''POST'', ''/iserver/auth/status''),
                               (''POST'', ''/iserver/reauthenticate''),
                               (''POST'', ''/iserver/auth/status''),
                               (''POST'', ''/iserver/reauthenticate'')]\<rparr>)
   \<and> calls_to ''/iserver/reauthenticate''
       (flapping\<lparr>requests := [(''POST'', ''/iserver/auth/status''),
                               (''POST'', ''/iserver/reauthenticate''),
                               (''POST'', ''/iserver/auth/status''),
                               (''POST'', ''/iserver/reauthenticate'')]\<rparr>) = 2
   \<and> check_auth_status new_session reauth_forbidden =
       Some (Inl (IBAPIError ''Reauthentication failed. Manual login may be required.'' None),
             new_session,
             reauth_forbidden\<lparr>requests := [(''POST'', ''/iserver/auth/status''),
                                            (''POST'', ''/iserver/reauthenticate'')]\<rparr>)
   \<and> check_auth_status new_session (always r403) =
       Some (Inl (IBAPIError ''Access forbidden'' (Some 403)), new_session,
             (always r403)\<lparr>requests := [(''POST'', ''/iserver/auth/status'')]\<rparr>)"
proof -
  have none: "\<forall>k<(0::nat). (\<exists>r. responses w (length (requests w) + 2 * k) = Response r \<and> status_code r = 401)
        \<and> (\<exists>r v. responses w (length (requests w) + 2 * k + 1) = Response r \<and> answers r v)" for w
    by simp
  have e: "requests flapping = []" "calls_to ''/iserver/reauthenticate'' flapping = 0"
    by (simp_all add: flapping_def script_simps calls_to_def)
  from reauth_cycle_repeats [OF flapping_cycles, of new_session]
  have a: "check_auth_status new_session flapping =
     check_auth_status new_session
       (flapping\<lparr>requests := [(''POST'', ''/iserver/auth/status''),
                               (''POST'', ''/iserver/reauthenticate''),
                               (''POST'', ''/iserver/auth/status''),
                               (''POST'', ''/iserver/reauthenticate'')]\<rparr>)"
    and b: "calls_to ''/iserver/reauthenticate''
       (flapping\<lparr>requests := [(''POST'', ''/iserver/auth/status''),
                               (''POST'', ''/iserver/reauthenticate''),
                               (''POST'', ''/iserver/auth/status''),
                               (''POST'', ''/iserver/reauthenticate'')]\<rparr>) = 2"
    by (simp_all add: e numeral_2_eq_2)
  from reauth_cycle_repeats [OF none, of new_session reauth_forbidden]
    try_check_reauth_forbidden post_reauth_forbidden
  have c: "check_auth_status new_session reauth_forbidden =
       Some (Inl (IBAPIError ''Reauthentication failed. Manual login may be required.'' None),
             new_session,
             reauth_forbidden\<lparr>requests := [(''POST'', ''/iserver/auth/status''),
                                            (''POST'', ''/iserver/reauthenticate'')]\<rparr>)"
    by blast
  from reauth_cycle_repeats [OF none, of new_session "always r403"]
    try_check_always_forbidden
  have d: "check_auth_status new_session (always r403) =
       Some (Inl (IBAPIError ''Access forbidden'' (Some 403)), new_session,
             (always r403)\<lparr>requests := [(''POST'', ''/iserver/auth/status'')]\<rparr>)"
    by simp
  from a b c d show ?thesis by blast
qed




lemma start_keep_alive_frame:
  "last_auth_check (start_keep_alive s) = last_auth_check s"
  "auth_check_interval (start_keep_alive s) = auth_check_interval s"
  "session_status (start_keep_alive s) = session_status s"
  by (simp_all add: start_keep_alive_def split: option.splits)

lemma try_check_frame:
  assumes "try_check s w = (r, s1, w1)"
  shows "last_auth_check s1 = last_auth_check s \<and> auth_check_interval s1 = auth_check_interval s"
  using assms
  by (auto simp: try_check_def start_keep_alive_frame split: prod.splits sum.splits jval.splits if_splits)

lemma check_auth_status_frame:
  assumes "check_auth_status s w = Some y"
  shows "last_auth_check (fst (snd y)) = last_auth_check s
       \<and> auth_check_interval (fst (snd y)) = auth_check_interval s"
proof (rule check_auth_status.raw_induct
         [where P = "\<lambda>s w y. last_auth_check (fst (snd y)) = last_auth_check s
                            \<and> auth_check_interval (fst (snd y)) = auth_check_interval s",
          OF _ assms], goal_cases)
  case (1 check s w y)
  obtain r s1 w1 where t: "try_check s w = (r, s1, w1)" by (cases "try_check s w") auto
  note f = try_check_frame [OF t]
  show ?case
  proof (cases r)
    case (Inr v)
    with 1(2) t f show ?thesis by auto
  next
    case (Inl e)
    show ?thesis
    proof (cases "status_code_of e = Some 401")
      case False
      with 1(2) t f Inl show ?thesis by (cases e) auto
    next
      case True
      then obtain m where e: "e = IBAPIError m (Some 401)" by (cases e) auto
      obtain r2 w2 where ra: "reauthenticate w1 = (r2, w2)" by (cases "reauthenticate w1") auto
      show ?thesis
      proof (cases r2)
        case (Inl e')
        with 1(2) t f \<open>r = Inl e\<close> e ra show ?thesis by auto
      next
        case (Inr u)
        with 1(2) t \<open>r = Inl e\<close> e ra have "check s1 w2 = Some y" by simp
        from 1(1) [OF this] f show ?thesis by simp
      qed
    qed
  qed
qed

lemma try_check_log:
  assumes "try_check s w = (r, s1, w1)"
  shows "\<exists>rest. requests w1 = requests w @ (''POST'', ''/iserver/auth/status'') # rest"
proof -
  from post_log [of "''/iserver/auth/status''" w] obtain n where
    "requests (snd (post ''/iserver/auth/status'' w)) =
       requests w @ (''POST'', ''/iserver/auth/status'') # replicate n (''POST'', ''/iserver/auth/status'')"
    by blast
  moreover have "w1 = snd (post ''/iserver/auth/status'' w)"
    using assms by (auto simp: try_check_def split: prod.splits sum.splits jval.splits if_splits)
  ultimately show ?thesis by blast
qed

lemma reauthenticate_log:
  assumes "reauthenticate w = (r, w1)"
  shows "\<exists>rest. requests w1 = requests w @ rest"
proof -
  from post_log [of "''/iserver/reauthenticate''" w] obtain n where
    "requests (snd (post ''/iserver/reauthenticate'' w)) =
       requests w @ (''POST'', ''/iserver/reauthenticate'') # replicate n (''POST'', ''/iserver/reauthenticate'')"
    by blast
  moreover have "w1 = snd (post ''/iserver/reauthenticate'' w)"
    using assms by (auto simp: reauthenticate_def split: prod.splits sum.splits)
  ultimately show ?thesis by blast
qed

lemma check_auth_status_log:
  assumes "check_auth_status s w = Some y"
  shows "\<exists>rest. requests (snd (snd y)) = requests w @ (''POST'', ''/iserver/auth/status'') # rest"
proof (rule check_auth_status.raw_induct
         [where P = "\<lambda>s w y. \<exists>rest. requests (snd (snd y)) =
                              requests w @ (''POST'', ''/iserver/auth/status'') # rest",
          OF _ assms], goal_cases)
  case (1 check s w y)
  obtain r s1 w1 where t: "try_check s w = (r, s1, w1)" by (cases "try_check s w") auto
  from try_check_log [OF t] obtain rest1 where
    l1: "requests w1 = requests w @ (''POST'', ''/iserver/auth/status'') # rest1" by blast
  show ?case
  proof (cases r)
    case (Inr v)
    with 1(2) t l1 show ?thesis by auto
  next
    case (Inl e)
    show ?thesis
    proof (cases "status_code_of e = Some 401")
      case False
      with 1(2) t l1 Inl show ?thesis by (cases e) auto
    next
      case True
      then obtain m where e: "e = IBAPIError m (Some 401)" by (cases e) auto
      obtain r2 w2 where ra: "reauthenticate w1 = (r2, w2)" by (cases "reauthenticate w1") auto
      from reauthenticate_log [OF ra] obtain rest2 where
        l2: "requests w2 = requests w1 @ rest2" by blast
      show ?thesis
      proof (cases r2)
        case (Inl e')
        with 1(2) t l1 l2 \<open>r = Inl e\<close> e ra show ?thesis by auto
      next
        case (Inr u)
        with 1(2) t \<open>r = Inl e\<close> e ra have "check s1 w2 = Some y" by simp
        from 1(1) [OF this] obtain rest3 where
          "requests (snd (snd y)) = requests w2 @ (''POST'', ''/iserver/auth/status'') # rest3"
          by blast
        with l1 l2 show ?thesis by simp
      qed
    qed
  qed
qed

lemma ensure_live_raises:
  assumes "ensure_live t s w = Some (Inl e, s', w')"
  shows "needs_check t s \<and> check_auth_status s w = Some (Inl e, s', w')"
  using assms
  by (auto simp: ensure_live_def split: if_splits option.splits prod.splits sum.splits)

lemma needs_check_later:
  assumes "needs_check t s" and "t \<le> t'"
    and "last_auth_check s' = last_auth_check s" and "auth_check_interval s' = auth_check_interval s"
  shows "needs_check t' s'"
  using assms by (auto simp: needs_check_def split: option.splits)

lemma ensure_live_checks:
  assumes "needs_check t s" and "ensure_live t s w = Some (r, s', w')"
  shows "\<exists>rest. requests w' = requests w @ (''POST'', ''/iserver/auth/status'') # rest"
proof -
  from assms obtain y where y: "check_auth_status s w = Some y" and w': "w' = snd (snd y)"
    by (auto simp: ensure_live_def split: if_splits option.splits prod.splits sum.splits)
  from check_auth_status_log [OF y] w' show ?thesis by simp
qed

lemma check_auth_status_payload:
  assumes "post ''/iserver/auth/status'' w = (Inr v, w1)"
    and "check_auth_status s w = Some (Inl e, s', w')"
  shows "s' = s\<lparr>session_status := Some v\<rparr> \<and> w' = w1
       \<and> \<not> (\<exists>kvs. v = JObj kvs \<and> truthy (dict_get kvs ''authenticated'' (JBool False)))"
proof -
  obtain r s1 w1' where t: "try_check s w = (r, s1, w1')" by (cases "try_check s w") auto
  show ?thesis
  proof (cases r)
    case (Inr u)
    with t have "check_auth_status s w = Some (Inr u, s1, w1')"
      by (simp add: check_auth_status_Inr)
    with assms(2) show ?thesis by simp
  next
    case (Inl e0)
    with t assms(1) have e0: "status_code_of e0 \<noteq> Some 401"
      and s1: "s1 = s\<lparr>session_status := Some v\<rparr>" and w1: "w1' = w1"
      and nv: "\<not> (\<exists>kvs. v = JObj kvs \<and> truthy (dict_get kvs ''authenticated'' (JBool False)))"
      by (auto simp: try_check_def no_attribute_get_def split: jval.splits if_splits)
    from t Inl e0 have "check_auth_status s w = Some (Inl e0, s1, w1')"
      by (simp add: check_auth_status_raise)
    with assms(2) s1 w1 nv show ?thesis by simp
  qed
qed

text \<open>
  C8. When \<^verbatim>\<open>_ensure_live\<close> raises, \<^verbatim>\<open>_last_auth_check\<close> is what it was, so the cache
  is still stale at every later clock reading and the next \<^verbatim>\<open>_ensure_live\<close> requests the
  auth status again. If the status call of the failed check had returned a payload \<open>v\<close>, the
  session status is now \<open>v\<close>, a payload that does not report an authenticated session.
\<close>

theorem failed_ensure_live_keeps_timestamp:
  assumes "ensure_live t s w = Some (Inl e, s', w')"
  shows "last_auth_check s' = last_auth_check s
       \<and> (t \<le> t' \<longrightarrow> needs_check t' s')
       \<and> (t \<le> t' \<and> ensure_live t' s' w' = Some (r, s'', w'')
          \<longrightarrow> (\<exists>rest. requests w'' = requests w' @ (''POST'', ''/iserver/auth/status'') # rest))
       \<and> (post ''/iserver/auth/status'' w = (Inr v, w1)
          \<longrightarrow> session_status s' = Some v
              \<and> \<not> (\<exists>kvs. v = JObj kvs \<and> truthy (dict_get kvs ''authenticated'' (JBool False))))"
proof -
  from ensure_live_raises [OF assms] have nc: "needs_check t s"
    and c: "check_auth_status s w = Some (Inl e, s', w')" by simp_all
  from check_auth_status_frame [OF c] have f: "last_auth_check s' = last_auth_check s"
    "auth_check_interval s' = auth_check_interval s" by simp_all
  have later: "needs_check t' s'" if "t \<le> t'"
    using nc that f by (rule needs_check_later)
  have again: "\<exists>rest. requests w'' = requests w' @ (''POST'', ''/iserver/auth/status'') # rest"
    if "t \<le> t'" "ensure_live t' s' w' = Some (r, s'', w'')"
    using later [OF that(1)] that(2) by (rule ensure_live_checks)
  have cache: "session_status s' = Some v
              \<and> \<not> (\<exists>kvs. v = JObj kvs \<and> truthy (dict_get kvs ''authenticated'' (JBool False)))"
    if "post ''/iserver/auth/status'' w = (Inr v, w1)"
    using check_auth_status_payload [OF that c] by simp
  from f(1) later again cache show ?thesis by blast
qed

lemma always_simps:
  "responses (always r) k = Response r" "requests (always r) = []" "slept (always r) = []"
  by (simp_all add: always_def)

lemma ensure_live_not_authenticated:
  assumes "needs_check t s"
    and "responses w (length (requests w)) = Response r" and "answers r (JObj kvs)"
    and "\<not> truthy (dict_get kvs ''authenticated'' (JBool False))"
  shows "ensure_live t s w =
           Some (Inl (IBAPIError
                        ''Session not authenticated. Please log in through the IB Gateway.'' None),
                 s\<lparr>session_status := Some (JObj kvs)\<rparr>,
                 w\<lparr>requests := requests w @ [(''POST'', ''/iserver/auth/status'')]\<rparr>)"
proof -
  have "check_auth_status s w =
           Some (Inl (IBAPIError
                        ''Session not authenticated. Please log in through the IB Gateway.'' None),
                 s\<lparr>session_status := Some (JObj kvs)\<rparr>,
                 w\<lparr>requests := requests w @ [(''POST'', ''/iserver/auth/status'')]\<rparr>)"
    by (rule check_auth_status_raise,
        rule try_check_not_authenticated [OF post_answers [OF assms(2,3)] assms(4)]) simp
  with assms(1) show ?thesis by (simp add: ensure_live_def)
qed

lemma ensure_live_authenticated:
  assumes "needs_check t s"
    and "responses w (length (requests w)) = Response r" and "answers r (JObj kvs)"
    and "truthy (dict_get kvs ''authenticated'' (JBool False))"
  shows "ensure_live t s w =
           Some (Inr (),
                 (start_keep_alive (s\<lparr>session_status := Some (JObj kvs)\<rparr>))
                   \<lparr>last_auth_check := Some t\<rparr>,
                 w\<lparr>requests := requests w @ [(''POST'', ''/iserver/auth/status'')]\<rparr>)"
  using assms(1) check_auth_status_authenticated [OF assms(2-4), of s]
  by (simp add: ensure_live_def)

lemma ensure_live_fresh:
  "\<not> needs_check t s \<Longrightarrow> ensure_live t s w = Some (Inr (), s, w)"
  by (simp add: ensure_live_def)

lemma ensure_live_each_fresh:
  assumes "\<forall>t' \<in> set ts. \<not> needs_check t' s"
  shows "ensure_live_each ts s w = Some (replicate (length ts) (Inr ()), s, w)"
  using assms by (induction ts) (simp_all add: ensure_live_fresh)

lemma ensure_live_returns:
  assumes "needs_check t s" and "ensure_live t s w = Some (Inr u, s1, w1)"
  shows "last_auth_check s1 = Some t \<and> auth_check_interval s1 = auth_check_interval s"
proof -
  from assms obtain v s0 where c: "check_auth_status s w = Some (Inr v, s0, w1)"
    and s1: "s1 = s0\<lparr>last_auth_check := Some t\<rparr>"
    by (auto simp: ensure_live_def split: if_splits option.splits prod.splits sum.splits)
  from check_auth_status_frame [OF c] s1 show ?thesis by simp
qed

text \<open>
  C2, as the code has it. Callers that contend for the lock enter one at a time. When
  the first of them finds the cache stale and its check succeeds, every other caller
  whose clock reading is within \<^verbatim>\<open>_auth_check_interval\<close> of the first caller's
  reading returns without a request: the state and the log are the ones the first caller
  left. If the first status answer already reports an authenticated session, that log
  holds exactly one more request, the one to the auth-status endpoint. (When the check
  raises, the timestamp stays as it was and the next caller checks again.)
\<close>

theorem single_flight_after_success:
  assumes "needs_check t s"
    and "ensure_live t s w = Some (Inr (), s1, w1)"
    and "\<forall>t' \<in> set ts. t' - t \<le> auth_check_interval s"
  shows "ensure_live_each (t # ts) s w = Some (replicate (Suc (length ts)) (Inr ()), s1, w1)
       \<and> (responses w (length (requests w)) = Response r \<and> answers r (JObj kvs)
            \<and> truthy (dict_get kvs ''authenticated'' (JBool False))
          \<longrightarrow> requests w1 = requests w @ [(''POST'', ''/iserver/auth/status'')])"
proof (intro conjI impI)
  from ensure_live_returns [OF assms(1,2)] have
    f: "last_auth_check s1 = Some t" "auth_check_interval s1 = auth_check_interval s" by simp_all
  have "\<forall>t' \<in> set ts. \<not> needs_check t' s1"
    using assms(3) f by (auto simp: needs_check_def)
  from ensure_live_each_fresh [OF this, of w1] assms(2)
  show "ensure_live_each (t # ts) s w = Some (replicate (Suc (length ts)) (Inr ()), s1, w1)"
    by simp
next
  assume "responses w (length (requests w)) = Response r \<and> answers r (JObj kvs)
            \<and> truthy (dict_get kvs ''authenticated'' (JBool False))"
  then have "ensure_live t s w =
           Some (Inr (),
                 (start_keep_alive (s\<lparr>session_status := Some (JObj kvs)\<rparr>))
                   \<lparr>last_auth_check := Some t\<rparr>,
                 w\<lparr>requests := requests w @ [(''POST'', ''/iserver/auth/status'')]\<rparr>)"
    using assms(1) by (intro ensure_live_authenticated) blast+
  with assms(2) show "requests w1 = requests w @ [(''POST'', ''/iserver/auth/status'')]"
    by auto
qed

lemma not_truthy_False: "\<not> truthy (dict_get [(''authenticated'', JBool False)] ''authenticated'' (JBool False))"
  by (simp add: dict_get_def)

lemma truthy_True: "truthy (dict_get [(''authenticated'', JBool True)] ''authenticated'' (JBool False))"
  by (simp add: dict_get_def)

lemma ensure_live_reports_unauthenticated:
  assumes "needs_check t s"
  shows "ensure_live t s (reports_unauthenticated\<lparr>requests := xs\<rparr>) =
           Some (Inl (IBAPIError
                        ''Session not authenticated. Please log in through the IB Gateway.'' None),
                 s\<lparr>session_status := Some (JObj [(''authenticated'', JBool False)])\<rparr>,
                 reports_unauthenticated\<lparr>requests := xs @ [(''POST'', ''/iserver/auth/status'')]\<rparr>)"
  using ensure_live_not_authenticated
          [OF assms _ answers_r200_authenticated [of False] not_truthy_False,
           of "reports_unauthenticated\<lparr>requests := xs\<rparr>"]
  by (simp add: reports_unauthenticated_def always_simps)

lemma needs_check_unstamped: "last_auth_check s = None \<Longrightarrow> needs_check t s"
  by (simp add: needs_check_def)

theorem failed_ensure_live_keeps_timestamp_witness:
  "ensure_live 0 new_session reports_unauthenticated =
     Some (Inl (IBAPIError
                  ''Session not authenticated. Please log in through the IB Gateway.'' None),
           new_session\<lparr>session_status := Some (JObj [(''authenticated'', JBool False)])\<rparr>,
           reports_unauthenticated\<lparr>requests := [(''POST'', ''/iserver/auth/status'')]\<rparr>)
   \<and> last_auth_check
         (new_session\<lparr>session_status := Some (JObj [(''authenticated'', JBool False)])\<rparr>) =
       last_auth_check new_session
   \<and> needs_check 1
         (new_session\<lparr>session_status := Some (JObj [(''authenticated'', JBool False)])\<rparr>)
   \<and> (\<exists>rest. requests (reports_unauthenticated
                            \<lparr>requests := [(''POST'', ''/iserver/auth/status''),
                                           (''POST'', ''/iserver/auth/status'')]\<rparr>) =
               requests (reports_unauthenticated\<lparr>requests := [(''POST'', ''/iserver/auth/status'')]\<rparr>)
                 @ (''POST'', ''/iserver/auth/status'') # rest)
   \<and> session_status
         (new_session\<lparr>session_status := Some (JObj [(''authenticated'', JBool False)])\<rparr>) =
       Some (JObj [(''authenticated'', JBool False)])"
proof -
  let ?s' = "new_session\<lparr>session_status := Some (JObj [(''authenticated'', JBool False)])\<rparr>"
  let ?w' = "reports_unauthenticated\<lparr>requests := [(''POST'', ''/iserver/auth/status'')]\<rparr>"
  let ?w'' = "reports_unauthenticated\<lparr>requests := [(''POST'', ''/iserver/auth/status''),
                                                     (''POST'', ''/iserver/auth/status'')]\<rparr>"
  let ?e = "IBAPIError ''Session not authenticated. Please log in through the IB Gateway.'' None"
  have w0: "reports_unauthenticated\<lparr>requests := []\<rparr> = reports_unauthenticated"
    by (simp add: reports_unauthenticated_def always_def)
  have h: "ensure_live 0 new_session reports_unauthenticated = Some (Inl ?e, ?s', ?w')"
    using ensure_live_reports_unauthenticated [OF needs_check_new_session, of 0 "[]"]
    by (simp add: w0)
  have second: "(0::real) \<le> 1 \<and> ensure_live 1 ?s' ?w' = Some (Inl ?e, ?s', ?w'')"
    using ensure_live_reports_unauthenticated
            [of 1 ?s' "[(''POST'', ''/iserver/auth/status'')]"]
    by (simp add: needs_check_unstamped new_session_def)
  have p: "post ''/iserver/auth/status'' reports_unauthenticated =
             (Inr (JObj [(''authenticated'', JBool False)]), ?w')"
    using post_answers [OF _ answers_r200_authenticated [of False],
            of reports_unauthenticated "''/iserver/auth/status''"]
    by (simp add: reports_unauthenticated_def always_simps)
  from failed_ensure_live_keeps_timestamp
         [OF h, of 1 "Inl ?e" ?s' ?w'' "JObj [(''authenticated'', JBool False)]" ?w']
       second p h
  show ?thesis by simp
qed

text \<open>
  The run that C2 excludes: two callers contend for the lock while the gateway reports
  an unauthenticated session. The first caller's check raises, the timestamp stays unset,
  and the second caller, once it has the lock, sends a second auth-status request.
\<close>

theorem single_flight_counterexample:
  "ensure_live_each [0, 0] new_session reports_unauthenticated =
     Some ([Inl (IBAPIError
                   ''Session not authenticated. Please log in through the IB Gateway.'' None),
            Inl (IBAPIError
                   ''Session not authenticated. Please log in through the IB Gateway.'' None)],
           new_session\<lparr>session_status := Some (JObj [(''authenticated'', JBool False)])\<rparr>,
           reports_unauthenticated\<lparr>requests := [(''POST'', ''/iserver/auth/status''),
                                                  (''POST'', ''/iserver/auth/status'')]\<rparr>)
   \<and> calls_to ''/iserver/auth/status''
        (reports_unauthenticated\<lparr>requests := [(''POST'', ''/iserver/auth/status''),
                                               (''POST'', ''/iserver/auth/status'')]\<rparr>) = 2"
proof -
  let ?s' = "new_session\<lparr>session_status := Some (JObj [(''authenticated'', JBool False)])\<rparr>"
  have w0: "reports_unauthenticated\<lparr>requests := []\<rparr> = reports_unauthenticated"
    by (simp add: reports_unauthenticated_def always_def)
  have n: "needs_check 0 ?s'"
    by (simp add: needs_check_unstamped new_session_def)
  show ?thesis
    using ensure_live_reports_unauthenticated [OF needs_check_new_session, of 0 "[]"]
          ensure_live_reports_unauthenticated [OF n, of "[(''POST'', ''/iserver/auth/status'')]"]
    by (simp add: w0 calls_to_def)
qed

theorem single_flight_after_success_witness:
  "ensure_live_each [0, 1, 2, 3, 4, 5, 6, 7, 8, 9] new_session reports_authenticated =
     Some (replicate 10 (Inr ()),
           new_session\<lparr>session_status := Some (JObj [(''authenticated'', JBool True)]),
                        keep_alive_task := Some Pending,
                        last_auth_check := Some 0\<rparr>,
           reports_authenticated\<lparr>requests := [(''POST'', ''/iserver/auth/status'')]\<rparr>)
   \<and> calls_to ''/iserver/auth/status''
        (reports_authenticated\<lparr>requests := [(''POST'', ''/iserver/auth/status'')]\<rparr>) = 1"
proof -
  let ?s1 = "new_session\<lparr>session_status := Some (JObj [(''authenticated'', JBool True)]),
                        keep_alive_task := Some Pending,
                        last_auth_check := Some 0\<rparr>"
  let ?w1 = "reports_authenticated\<lparr>requests := [(''POST'', ''/iserver/auth/status'')]\<rparr>"
  have r: "responses reports_authenticated (length (requests reports_authenticated)) =
             Response (r200_authenticated True)"
    by (simp add: reports_authenticated_def always_simps)
  have h2: "ensure_live 0 new_session reports_authenticated = Some (Inr (), ?s1, ?w1)"
    using ensure_live_authenticated
            [OF needs_check_new_session r answers_r200_authenticated [of True] truthy_True, of 0]
    by (simp add: start_keep_alive_def new_session_def reports_authenticated_def always_simps)
  have h3: "\<forall>t' \<in> set [1, 2, 3, 4, 5, 6, 7, 8, 9 :: real]. t' - 0 \<le> auth_check_interval new_session"
    by (simp add: new_session_def)
  have rep: "replicate (Suc (length [1, 2, 3, 4, 5, 6, 7, 8, 9 :: real])) (Inr ()) =
               replicate 10 (Inr () :: exn + unit)"
    by (simp add: numeral_eq_Suc)
  have a: "ensure_live_each [0, 1, 2, 3, 4, 5, 6, 7, 8, 9] new_session reports_authenticated =
             Some (replicate 10 (Inr ()), ?s1, ?w1)"
    using single_flight_after_success [OF needs_check_new_session h2 h3, THEN conjunct1]
    unfolding rep .
  have b: "requests ?w1 = requests reports_authenticated @ [(''POST'', ''/iserver/auth/status'')]"
    using single_flight_after_success [OF needs_check_new_session h2 h3, THEN conjunct2, rule_format,
            of "r200_authenticated True" "[(''authenticated'', JBool True)]"]
          r answers_r200_authenticated [of True] truthy_True
    by blast
  from a b show ?thesis by (simp add: calls_to_def)
qed

lemma pending_start_keep_alive: "pending (start_keep_alive s)"
  by (cases "keep_alive_task s") (auto simp: pending_def start_keep_alive_def)

lemma pending_update [simp]:
  "pending (s\<lparr>session_status := x\<rparr>) = pending s"
  "pending (s\<lparr>last_auth_check := y\<rparr>) = pending s"
  by (simp_all add: pending_def)

lemma try_check_pending:
  assumes "try_check s w = (r, s1, w1)"
  shows "pending s1 = (pending s \<or> \<not> isl r)"
  using assms
  by (auto simp: try_check_def pending_start_keep_alive
           split: prod.splits sum.splits jval.splits if_splits)




section \<open>Overlapping calls: properties\<close>

lemma move_simps [simp]:
  "sess (move i th \<sigma>) = sess \<sigma>" "env (move i th \<sigma>) = env \<sigma>"
  "locked (move i th \<sigma>) = locked \<sigma>" "cancelling (move i th \<sigma>) = cancelling \<sigma>"
  "checks_ok (move i th \<sigma>) = checks_ok \<sigma>" "checked (move i th \<sigma>) = checked \<sigma>"
  "threads (move i th \<sigma>) = (threads \<sigma>)[i := th]"
  by (simp_all add: move_def)

lemma live_move [simp]: "live (move i th \<sigma>) = live \<sigma>"
  by (simp add: live_def)

lemma pending_iff: "pending s = (\<exists>t. keep_alive_task s = Some t \<and> \<not> is_done t)"
  by (cases "keep_alive_task s") (simp_all add: pending_def)

lemma pending_Finished [simp]: "\<not> pending (s\<lparr>keep_alive_task := Some Finished\<rparr>)"
  by (simp add: pending_def)


lemma try_check_env:
  assumes "try_check s w = (r, s1, w1)"
  shows "w1 = snd (post ''/iserver/auth/status'' w)"
  using assms by (auto simp: try_check_def split: prod.splits sum.splits jval.splits if_splits)

lemma reauthenticate_env:
  assumes "reauthenticate w = (r, w1)"
  shows "w1 = snd (post ''/iserver/reauthenticate'' w)"
  using assms by (auto simp: reauthenticate_def split: prod.splits sum.splits)

lemma calls_to_post:
  assumes "path \<noteq> path'"
  shows "calls_to path' (snd (post path w)) = calls_to path' w"
proof -
  from post_log [of path w] obtain n where
    "requests (snd (post path w)) = requests w @ (''POST'', path) # replicate n (''POST'', path)"
    by blast
  with assms show ?thesis by (simp add: calls_to_def)
qed





lemma fire_checks_ok:
  assumes "fire e \<sigma> = Some \<sigma>'"
  shows "checks_ok \<sigma> \<le> checks_ok \<sigma>'"
  using assms
  by (cases e) (auto split: if_splits option.splits thread.splits prod.splits sum.splits)

lemma run_checks_ok:
  assumes "run es \<sigma> = Some \<sigma>'"
  shows "checks_ok \<sigma> \<le> checks_ok \<sigma>'"
  using assms
proof (induction es arbitrary: \<sigma>)
  case Nil
  then show ?case by simp
next
  case (Cons e es)
  from Cons.prems obtain \<sigma>1 where f: "fire e \<sigma> = Some \<sigma>1" and r: "run es \<sigma>1 = Some \<sigma>'"
    by (auto split: option.splits)
  from fire_checks_ok [OF f] Cons.IH [OF r] show ?case by simp
qed

lemma fire_quiet:
  assumes "fire e \<sigma> = Some \<sigma>'" and "\<not> live \<sigma>" and "checks_ok \<sigma>' = checks_ok \<sigma>"
  shows "e \<noteq> Ping \<and> calls_to ''/tickle'' (env \<sigma>') = calls_to ''/tickle'' (env \<sigma>) \<and> \<not> live \<sigma>'"
proof (cases e)
  case (Status i)
  with assms(1) obtain t where at: "thread_at \<sigma> i = Some (EL_status t)"
    by (auto split: option.splits thread.splits)
  obtain r s1 w1 where t: "try_check (sess \<sigma>) (env \<sigma>) = (r, s1, w1)"
    by (cases "try_check (sess \<sigma>) (env \<sigma>)") auto
  from assms(1,3) Status at t obtain x where r: "r = Inl x"
    by (cases r) auto
  from try_check_pending [OF t] r have p: "pending s1 = pending (sess \<sigma>)" by simp
  have w: "calls_to ''/tickle'' w1 = calls_to ''/tickle'' (env \<sigma>)"
    unfolding try_check_env [OF t] by (rule calls_to_post) simp
  from assms(1,2) Status at t r p w show ?thesis
    by (auto simp: live_def split: if_splits)
next
  case (Reauth i)
  with assms(1) obtain t where at: "thread_at \<sigma> i = Some (EL_reauth t)"
    by (auto split: option.splits thread.splits)
  obtain r w1 where t: "reauthenticate (env \<sigma>) = (r, w1)"
    by (cases "reauthenticate (env \<sigma>)") auto
  have w: "calls_to ''/tickle'' w1 = calls_to ''/tickle'' (env \<sigma>)"
    unfolding reauthenticate_env [OF t] by (rule calls_to_post) simp
  from assms(1,2) Reauth at t w show ?thesis
    by (cases r) (auto simp: live_def)
next
  case (Logout i)
  have "calls_to ''/tickle'' (snd (post ''/logout'' (env \<sigma>))) = calls_to ''/tickle'' (env \<sigma>)"
    by (rule calls_to_post) simp
  with assms(1,2) Logout show ?thesis
    by (auto simp: live_def split: if_splits)
next
  case Ping
  with assms(1,2) show ?thesis by (simp split: if_splits)
qed (use assms in \<open>auto simp: live_def split: if_splits\<close>)

lemma run_quiet:
  assumes "run es \<sigma> = Some \<sigma>'" and "\<not> live \<sigma>" and "checks_ok \<sigma>' = checks_ok \<sigma>"
  shows "Ping \<notin> set es \<and> calls_to ''/tickle'' (env \<sigma>') = calls_to ''/tickle'' (env \<sigma>)
       \<and> \<not> live \<sigma>'"
  using assms
proof (induction es arbitrary: \<sigma>)
  case Nil
  then show ?case by simp
next
  case (Cons e es)
  from Cons.prems(1) obtain \<sigma>1 where f: "fire e \<sigma> = Some \<sigma>1" and r: "run es \<sigma>1 = Some \<sigma>'"
    by (auto split: option.splits)
  from fire_checks_ok [OF f] run_checks_ok [OF r] Cons.prems(3)
  have c: "checks_ok \<sigma>1 = checks_ok \<sigma>" "checks_ok \<sigma>' = checks_ok \<sigma>1" by simp_all
  from fire_quiet [OF f Cons.prems(2) c(1)]
  have q: "e \<noteq> Ping" "calls_to ''/tickle'' (env \<sigma>1) = calls_to ''/tickle'' (env \<sigma>)" "\<not> live \<sigma>1"
    by simp_all
  from Cons.IH [OF r q(3) c(2)] q show ?case by simp
qed

lemma fire_Cancel:
  assumes "fire (Cancel i) \<sigma> = Some \<sigma>'"
  shows "\<not> live \<sigma>' \<and> env \<sigma>' = env \<sigma> \<and> checks_ok \<sigma>' = checks_ok \<sigma>
       \<and> (pending (sess \<sigma>) \<longrightarrow> thread_at \<sigma>' i = Some LO_task)"
  using assms by (auto simp: live_def thread_at_def split: if_splits)

lemma fire_threads:
  assumes "fire e \<sigma> = Some \<sigma>'" and "e \<noteq> Task_ends"
  shows "(\<exists>ths. threads \<sigma>' = threads \<sigma> @ ths)
       \<or> (\<exists>j th th'. thread_at \<sigma> j = Some th \<and> th \<noteq> LO_task
                       \<and> threads \<sigma>' = (threads \<sigma>)[j := th'])"
proof (cases e)
  case (Status j)
  with assms(1) obtain t where j: "thread_at \<sigma> j = Some (EL_status t)"
    by (auto split: option.splits thread.splits)
  obtain r s1 w1 where t: "try_check (sess \<sigma>) (env \<sigma>) = (r, s1, w1)"
    by (cases "try_check (sess \<sigma>) (env \<sigma>)") auto
  from assms(1) Status j t have "\<exists>th'. threads \<sigma>' = (threads \<sigma>)[j := th']"
    by (cases r) (auto split: if_splits)
  with j show ?thesis by blast
next
  case (Reauth j)
  with assms(1) obtain t where j: "thread_at \<sigma> j = Some (EL_reauth t)"
    by (auto split: option.splits thread.splits)
  obtain r w1 where t: "reauthenticate (env \<sigma>) = (r, w1)"
    by (cases "reauthenticate (env \<sigma>)") auto
  from assms(1) Reauth j t have "\<exists>th'. threads \<sigma>' = (threads \<sigma>)[j := th']"
    by (cases r) auto
  with j show ?thesis by blast
next
  case (Lock j t)
  with assms(1) have j: "thread_at \<sigma> j = Some EL_lock" by (simp split: if_splits)
  from assms(1) Lock have "\<exists>th'. threads \<sigma>' = (threads \<sigma>)[j := th']"
    by (auto split: if_splits)
  with j show ?thesis by blast
next
  case (Cancel j)
  with assms(1) have j: "thread_at \<sigma> j = Some LO_called" by (simp split: if_splits)
  from assms(1) Cancel have "\<exists>th'. threads \<sigma>' = (threads \<sigma>)[j := th']"
    by (auto split: if_splits)
  with j show ?thesis by blast
next
  case (Logout j)
  with assms(1) have j: "thread_at \<sigma> j = Some LO_post" by (simp split: if_splits)
  from assms(1) Logout have "\<exists>th'. threads \<sigma>' = (threads \<sigma>)[j := th']"
    by (auto split: if_splits)
  with j show ?thesis by blast
next
  case Ping
  with assms(1) have "threads \<sigma>' = threads \<sigma> @ []" by (auto split: if_splits)
  then show ?thesis by blast
next
  case Task_ends
  with assms(2) show ?thesis by simp
qed (use assms in auto)

lemma fire_waiting:
  assumes "fire e \<sigma> = Some \<sigma>'" and "thread_at \<sigma> i = Some LO_task" and "e \<noteq> Task_ends"
  shows "thread_at \<sigma>' i = Some LO_task"
proof -
  from assms(2) have i: "i < length (threads \<sigma>)" "threads \<sigma> ! i = LO_task"
    by (simp_all add: thread_at_def split: if_splits)
  from fire_threads [OF assms(1,3)] show ?thesis
  proof
    assume "\<exists>ths. threads \<sigma>' = threads \<sigma> @ ths"
    with i show ?thesis by (auto simp: thread_at_def nth_append)
  next
    assume "\<exists>j th th'. thread_at \<sigma> j = Some th \<and> th \<noteq> LO_task
                       \<and> threads \<sigma>' = (threads \<sigma>)[j := th']"
    then obtain j th th' where j: "thread_at \<sigma> j = Some th" "th \<noteq> LO_task"
      "threads \<sigma>' = (threads \<sigma>)[j := th']" by blast
    from j(1,2) i have "j \<noteq> i" by (auto simp: thread_at_def split: if_splits)
    with i j(3) show ?thesis by (simp add: thread_at_def)
  qed
qed

lemma run_waiting:
  assumes "run es \<sigma> = Some \<sigma>'" and "thread_at \<sigma> i = Some LO_task" and "Task_ends \<notin> set es"
  shows "thread_at \<sigma>' i = Some LO_task"
  using assms
proof (induction es arbitrary: \<sigma>)
  case Nil
  then show ?case by simp
next
  case (Cons e es)
  from Cons.prems(1) obtain \<sigma>1 where f: "fire e \<sigma> = Some \<sigma>1" and r: "run es \<sigma>1 = Some \<sigma>'"
    by (auto split: option.splits)
  from Cons.prems(3) have ne: "e \<noteq> Task_ends" "Task_ends \<notin> set es" by auto
  from Cons.IH [OF r fire_waiting [OF f Cons.prems(2) ne(1)] ne(2)] show ?case .
qed

lemma keep_alive_pass_Break: "(keep_alive_pass a b = Break) = cancelled_in (a, b)"
  by (cases a; cases b) (simp_all add: cancelled_in_def)

lemma keep_alive_loop_exit:
  assumes "keep_alive_loop awaits k = Some n"
  shows "k \<le> n \<and> cancelled_in (awaits n) \<and> (\<forall>j. k \<le> j \<and> j < n \<longrightarrow> \<not> cancelled_in (awaits j))"
proof (rule keep_alive_loop.raw_induct
         [where P = "\<lambda>awaits k n. k \<le> n \<and> cancelled_in (awaits n)
                        \<and> (\<forall>j. k \<le> j \<and> j < n \<longrightarrow> \<not> cancelled_in (awaits j))",
          OF _ assms], goal_cases)
  case (1 loop awaits k n)
  show ?case
  proof (cases "keep_alive_pass (fst (awaits k)) (snd (awaits k))")
    case Break
    with 1(2) have "n = k" by simp
    moreover from Break have "cancelled_in (awaits k)"
      using keep_alive_pass_Break [of "fst (awaits k)" "snd (awaits k)"] by simp
    ultimately show ?thesis by auto
  next
    case Continue
    with 1(2) have "loop awaits (Suc k) = Some n" by simp
    from 1(1) [OF this] have ih: "Suc k \<le> n" "cancelled_in (awaits n)"
      "\<forall>j. Suc k \<le> j \<and> j < n \<longrightarrow> \<not> cancelled_in (awaits j)" by simp_all
    from Continue have nk: "\<not> cancelled_in (awaits k)"
      using keep_alive_pass_Break [of "fst (awaits k)" "snd (awaits k)"] by simp
    have "\<not> cancelled_in (awaits j)" if "k \<le> j" "j < n" for j
    proof (cases "j = k")
      case True
      with nk show ?thesis by simp
    next
      case False
      with that ih(3) show ?thesis by simp
    qed
    with ih show ?thesis by simp
  qed
qed

lemma keep_alive_loop_returns:
  assumes "k \<le> n" and "cancelled_in (awaits n)"
  shows "keep_alive_loop awaits k \<noteq> None"
  using assms
proof (induction "n - k" arbitrary: k)
  case 0
  then have "k = n" by simp
  with 0 have "keep_alive_pass (fst (awaits k)) (snd (awaits k)) = Break"
    using keep_alive_pass_Break [of "fst (awaits k)" "snd (awaits k)"] by simp
  then show ?case by (subst keep_alive_loop.simps) simp
next
  case (Suc d)
  then have "d = n - Suc k" "Suc k \<le> n" by simp_all
  from Suc.hyps(1) [OF this Suc.prems(2)] have "keep_alive_loop awaits (Suc k) \<noteq> None" .
  then show ?case
    by (subst keep_alive_loop.simps)
       (cases "keep_alive_pass (fst (awaits k)) (snd (awaits k))"; simp)
qed

lemma responses_reports_authenticated:
  "responses reports_authenticated = (\<lambda>k. Response (r200_authenticated True))"
  "requests reports_authenticated = []"
  by (simp_all add: reports_authenticated_def always_def)

lemma post_authenticated:
  assumes "responses w = (\<lambda>k. Response (r200_authenticated True))"
  shows "post path w =
           (Inr (JObj [(''authenticated'', JBool True)]),
            w\<lparr>requests := requests w @ [(''POST'', path)]\<rparr>)"
  using post_answers [OF _ answers_r200_authenticated [of True], of w path] assms by simp

lemma try_check_authenticated_world:
  assumes "responses w = (\<lambda>k. Response (r200_authenticated True))"
  shows "try_check s w =
           (Inr (JObj [(''authenticated'', JBool True)]),
            start_keep_alive (s\<lparr>session_status := Some (JObj [(''authenticated'', JBool True)])\<rparr>),
            w\<lparr>requests := requests w @ [(''POST'', ''/iserver/auth/status'')]\<rparr>)"
  using try_check_authenticated [OF post_authenticated [OF assms] truthy_True] .

lemma run_logout_called:
  "run [Call_ensure_live, Lock 0 0, Status 0, Call_logout] (initial reports_authenticated) =
     Some logout_called"
  by (simp add: initial_def logout_called_def thread_at_def move_def needs_check_def
        try_check_authenticated_world responses_reports_authenticated start_keep_alive_def
        new_session_def)

lemma fire_Cancel_logout_called: "fire (Cancel 1) logout_called = Some logout_waiting"
  by (simp add: logout_called_def logout_waiting_def thread_at_def move_def pending_def)

lemma fire_Task_ends_logout_waiting: "fire Task_ends logout_waiting = Some logout_posting"
  by (simp add: logout_called_def logout_waiting_def logout_posting_def pending_def new_session_def)

lemma fire_Logout_logout_posting: "fire (Logout 1) logout_posting = Some logout_returned"
  by (simp add: logout_posting_def logout_returned_def thread_at_def move_def
        post_authenticated responses_reports_authenticated new_session_def)

lemma run_append:
  "run (es @ es') \<sigma> = (case run es \<sigma> of None \<Rightarrow> None | Some \<sigma>' \<Rightarrow> run es' \<sigma>')"
  by (induction es arbitrary: \<sigma>) (simp_all split: option.splits)

lemma run_Cons_Some: "fire e \<sigma> = Some \<sigma>' \<Longrightarrow> run (e # es) \<sigma> = run es \<sigma>'"
  by simp

lemma run_logout_returning:
  "run [Task_ends, Logout 1] logout_waiting = Some logout_returned"
proof -
  have "run [Task_ends, Logout 1] logout_waiting = run [Logout 1] logout_posting"
    by (rule run_Cons_Some [OF fire_Task_ends_logout_waiting])
  also have "\<dots> = run [] logout_returned"
    by (rule run_Cons_Some [OF fire_Logout_logout_posting])
  finally show ?thesis by (simp only: run.simps)
qed

lemma run_logout_posting:
  "run [Call_ensure_live, Lock 0 0, Status 0, Call_logout, Cancel 1, Task_ends]
       (initial reports_authenticated) = Some logout_posting"
proof -
  have "run ([Call_ensure_live, Lock 0 0, Status 0, Call_logout] @ [Cancel 1, Task_ends])
          (initial reports_authenticated) = run [Cancel 1, Task_ends] logout_called"
    by (simp only: run_append run_logout_called option.case)
  also have "\<dots> = run [Task_ends] logout_waiting"
    by (rule run_Cons_Some [OF fire_Cancel_logout_called])
  also have "\<dots> = run [] logout_posting"
    by (rule run_Cons_Some [OF fire_Task_ends_logout_waiting])
  finally show ?thesis by (simp only: run.simps append.simps)
qed


text \<open>
  C6, as the code has it. \<^verbatim>\<open>logout\<close> cancels the keep-alive task and goes on to the
  logout request, and so returns, only after that task has ended. From the cancellation
  on, while \<^verbatim>\<open>logout\<close> waits, when it returns and afterwards, no ping is sent for as long
  as no auth check succeeds: a successful check is what starts a keep-alive task again.
  Cancellation is the only way out of the keep-alive loop, and it is a way out: the loop
  is left in the first pass in which \<^verbatim>\<open>CancelledError\<close> is raised, by \<^verbatim>\<open>break\<close>.
\<close>

theorem no_ping_after_cancel_until_check:
  assumes "fire (Cancel i) \<sigma>0 = Some \<sigma>1" and "run es \<sigma>1 = Some \<sigma>2"
  shows "(checks_ok \<sigma>2 = checks_ok \<sigma>0
          \<longrightarrow> Ping \<notin> set es
              \<and> calls_to ''/tickle'' (env \<sigma>2) = calls_to ''/tickle'' (env \<sigma>0)
              \<and> fire Ping \<sigma>2 = None)
       \<and> (pending (sess \<sigma>0) \<and> thread_at \<sigma>2 i = Some LO_returned \<longrightarrow> Task_ends \<in> set es)
       \<and> (keep_alive_loop awaits k = Some n
          \<longrightarrow> k \<le> n \<and> cancelled_in (awaits n)
              \<and> (\<forall>j. k \<le> j \<and> j < n \<longrightarrow> \<not> cancelled_in (awaits j)))
       \<and> (k \<le> n \<and> cancelled_in (awaits n) \<longrightarrow> keep_alive_loop awaits k \<noteq> None)"
proof -
  note c = fire_Cancel [OF assms(1)]
  have quiet: "Ping \<notin> set es
              \<and> calls_to ''/tickle'' (env \<sigma>2) = calls_to ''/tickle'' (env \<sigma>0)
              \<and> fire Ping \<sigma>2 = None"
    if same: "checks_ok \<sigma>2 = checks_ok \<sigma>0"
  proof -
    from same c have "checks_ok \<sigma>2 = checks_ok \<sigma>1" by simp
    from run_quiet [OF assms(2) _ this] c
    have "Ping \<notin> set es" "calls_to ''/tickle'' (env \<sigma>2) = calls_to ''/tickle'' (env \<sigma>0)"
      "\<not> live \<sigma>2" by simp_all
    then show ?thesis by simp
  qed
  have awaited: "Task_ends \<in> set es"
    if a: "pending (sess \<sigma>0) \<and> thread_at \<sigma>2 i = Some LO_returned"
  proof (rule ccontr)
    assume n: "Task_ends \<notin> set es"
    from a c have w: "thread_at \<sigma>1 i = Some LO_task" by simp
    from run_waiting [OF assms(2) w n] a show False by simp
  qed
  have exit: "k \<le> n \<and> cancelled_in (awaits n)
              \<and> (\<forall>j. k \<le> j \<and> j < n \<longrightarrow> \<not> cancelled_in (awaits j))"
    if "keep_alive_loop awaits k = Some n"
    using that by (rule keep_alive_loop_exit)
  have returns: "keep_alive_loop awaits k \<noteq> None" if "k \<le> n \<and> cancelled_in (awaits n)"
    using keep_alive_loop_returns [of k n awaits] that by blast
  from quiet awaited exit returns show ?thesis by blast
qed

lemma keep_alive_loop_cancelled_in_third_sleep:
  "keep_alive_loop cancelled_in_third_sleep 0 = Some 2"
proof -
  have "keep_alive_loop cancelled_in_third_sleep 0 = keep_alive_loop cancelled_in_third_sleep (Suc 0)"
    by (subst keep_alive_loop.simps) (simp add: cancelled_in_third_sleep_def)
  also have "\<dots> = keep_alive_loop cancelled_in_third_sleep (Suc (Suc 0))"
    by (subst keep_alive_loop.simps) (simp add: cancelled_in_third_sleep_def)
  also have "\<dots> = Some (Suc (Suc 0))"
    by (subst keep_alive_loop.simps) (simp add: cancelled_in_third_sleep_def)
  finally show ?thesis by (simp add: numeral_2_eq_2)
qed

theorem no_ping_after_cancel_until_check_witness:
  "fire (Cancel 1) logout_called = Some logout_waiting
   \<and> run [Task_ends, Logout 1] logout_waiting = Some logout_returned
   \<and> checks_ok logout_returned = checks_ok logout_called
   \<and> Ping \<notin> set [Task_ends, Logout 1]
   \<and> calls_to ''/tickle'' (env logout_returned) = calls_to ''/tickle'' (env logout_called)
   \<and> fire Ping logout_returned = None
   \<and> thread_at logout_returned 1 = Some LO_returned
   \<and> Task_ends \<in> set [Task_ends, Logout 1]
   \<and> keep_alive_loop cancelled_in_third_sleep 0 = Some 2
   \<and> cancelled_in (cancelled_in_third_sleep 2)
   \<and> \<not> cancelled_in (cancelled_in_third_sleep 0)
   \<and> \<not> cancelled_in (cancelled_in_third_sleep 1)"
proof -
  note r = run_logout_returning
  have c: "checks_ok logout_returned = checks_ok logout_called"
    by (simp add: logout_returned_def logout_called_def)
  have p: "pending (sess logout_called) \<and> thread_at logout_returned 1 = Some LO_returned"
    by (simp add: logout_called_def logout_returned_def pending_def thread_at_def)
  note t = no_ping_after_cancel_until_check
             [OF fire_Cancel_logout_called r, of cancelled_in_third_sleep 0 2]
  have "(0::nat) \<le> 0 \<and> (0::nat) < 2" "(0::nat) \<le> 1 \<and> (1::nat) < 2" by simp_all
  with t c p keep_alive_loop_cancelled_in_third_sleep fire_Cancel_logout_called r
  show ?thesis by blast
qed

text \<open>
  The run that C6 excludes. A first \<^verbatim>\<open>_ensure_live\<close> has started the keep-alive task.
  \<^verbatim>\<open>logout\<close> is called, cancels the task and waits until it has ended. While \<^verbatim>\<open>logout\<close>
  then waits for its call to \<^verbatim>\<open>/logout\<close>, a second \<^verbatim>\<open>_ensure_live\<close>, whose clock reading
  finds the cache stale, gets the lock, and its check succeeds: the task in
  \<^verbatim>\<open>_keep_alive_task\<close> is done, so a new one is started. \<^verbatim>\<open>logout\<close> returns, and after
  that, with no further call, the new task sends a ping.
\<close>

theorem ping_after_logout_counterexample:
  "run [Call_ensure_live, Lock 0 0, Status 0,
        Call_logout, Cancel 1, Task_ends,
        Call_ensure_live, Lock 2 1000, Status 2,
        Logout 1, Ping]
       (initial reports_authenticated) =
     Some \<lparr>sess = new_session\<lparr>keep_alive_task := Some Pending\<rparr>,
           env = reports_authenticated\<lparr>requests := [(''POST'', ''/iserver/auth/status''),
                                                      (''POST'', ''/iserver/auth/status''),
                                                      (''POST'', ''/logout''),
                                                      (''POST'', ''/tickle'')]\<rparr>,
           locked = False, cancelling = False,
           threads = [EL_returned (Inr ()), LO_returned, EL_returned (Inr ())],
           checks_ok = 2, checked = True\<rparr>"
proof -
  have "run ([Call_ensure_live, Lock 0 0, Status 0, Call_logout, Cancel 1, Task_ends]
             @ [Call_ensure_live, Lock 2 1000, Status 2, Logout 1, Ping])
          (initial reports_authenticated) =
        run [Call_ensure_live, Lock 2 1000, Status 2, Logout 1, Ping] logout_posting"
    by (simp only: run_append run_logout_posting option.case)
  also have "\<dots> =
     Some \<lparr>sess = new_session\<lparr>keep_alive_task := Some Pending\<rparr>,
           env = reports_authenticated\<lparr>requests := [(''POST'', ''/iserver/auth/status''),
                                                      (''POST'', ''/iserver/auth/status''),
                                                      (''POST'', ''/logout''),
                                                      (''POST'', ''/tickle'')]\<rparr>,
           locked = False, cancelling = False,
           threads = [EL_returned (Inr ()), LO_returned, EL_returned (Inr ())],
           checks_ok = 2, checked = True\<rparr>"
    by (simp add: logout_posting_def thread_at_def move_def needs_check_def live_def pending_def
          try_check_authenticated_world post_authenticated responses_reports_authenticated
          start_keep_alive_def new_session_def)
  finally show ?thesis by (simp only: append.simps)
qed

text \<open>
  A \<^verbatim>\<open>logout\<close> that nothing overlaps with, step by step, does what \<open>logout\<close> does in
  one.
\<close>

lemma logout_alone_pending:
  assumes "pending (sess \<sigma>)" and "threads \<sigma> = []"
  shows "run [Call_logout, Cancel 0, Task_ends, Logout 0] \<sigma> =
           Some (\<sigma>\<lparr>sess := fst (logout (sess \<sigma>) (env \<sigma>)),
                    env := snd (logout (sess \<sigma>) (env \<sigma>)),
                    cancelling := False, checked := False, threads := [LO_returned]\<rparr>)"
proof -
  from assms(1) obtain t where t: "keep_alive_task (sess \<sigma>) = Some t" "\<not> is_done t"
    by (auto simp: pending_iff)
  then show ?thesis
    using assms
    by (cases "post ''/logout'' (env \<sigma>)")
       (simp add: thread_at_def move_def logout_def pending_def)
qed

lemma logout_alone_not_pending:
  assumes "\<not> pending (sess \<sigma>)" and "threads \<sigma> = []"
  shows "run [Call_logout, Cancel 0, Logout 0] \<sigma> =
           Some (\<sigma>\<lparr>sess := fst (logout (sess \<sigma>) (env \<sigma>)),
                    env := snd (logout (sess \<sigma>) (env \<sigma>)),
                    threads := [LO_returned]\<rparr>)"
  using assms
  by (cases "post ''/logout'' (env \<sigma>)"; cases "keep_alive_task (sess \<sigma>)")
     (simp_all add: thread_at_def move_def logout_def pending_def)

text \<open>
  So does a call of \<^verbatim>\<open>_ensure_live\<close>: whenever \<open>ensure_live\<close> returns, the steps of a
  caller that gets the lock at the same clock reading lead to the same session, the same
  environment and the same result.
\<close>

lemma check_steps:
  assumes "check_auth_status s w = Some y"
  shows "\<forall>\<sigma>. thread_at \<sigma> i = Some (EL_status t) \<and> sess \<sigma> = s \<and> env \<sigma> = w \<longrightarrow>
           (\<exists>es \<sigma>'. run es \<sigma> = Some \<sigma>'
              \<and> sess \<sigma>' = (case fst y of Inl e \<Rightarrow> fst (snd y)
                                       | Inr v \<Rightarrow> (fst (snd y))\<lparr>last_auth_check := Some t\<rparr>)
              \<and> env \<sigma>' = snd (snd y)
              \<and> thread_at \<sigma>' i = Some (EL_returned (case fst y of Inl e \<Rightarrow> Inl e | Inr v \<Rightarrow> Inr ())))"
proof (rule check_auth_status.raw_induct
         [where P = "\<lambda>s w y. \<forall>\<sigma>. thread_at \<sigma> i = Some (EL_status t) \<and> sess \<sigma> = s \<and> env \<sigma> = w \<longrightarrow>
           (\<exists>es \<sigma>'. run es \<sigma> = Some \<sigma>'
              \<and> sess \<sigma>' = (case fst y of Inl e \<Rightarrow> fst (snd y)
                                       | Inr v \<Rightarrow> (fst (snd y))\<lparr>last_auth_check := Some t\<rparr>)
              \<and> env \<sigma>' = snd (snd y)
              \<and> thread_at \<sigma>' i = Some (EL_returned (case fst y of Inl e \<Rightarrow> Inl e | Inr v \<Rightarrow> Inr ())))",
          OF _ assms], goal_cases)
  case (1 check s w y)
  show ?case
  proof (intro allI impI)
    fix \<sigma> assume a: "thread_at \<sigma> i = Some (EL_status t) \<and> sess \<sigma> = s \<and> env \<sigma> = w"
    then have i: "i < length (threads \<sigma>)" by (simp add: thread_at_def split: if_splits)
    obtain r s1 w1 where tc: "try_check s w = (r, s1, w1)" by (cases "try_check s w") auto
    show "\<exists>es \<sigma>'. run es \<sigma> = Some \<sigma>'
              \<and> sess \<sigma>' = (case fst y of Inl e \<Rightarrow> fst (snd y)
                                       | Inr v \<Rightarrow> (fst (snd y))\<lparr>last_auth_check := Some t\<rparr>)
              \<and> env \<sigma>' = snd (snd y)
              \<and> thread_at \<sigma>' i = Some (EL_returned (case fst y of Inl e \<Rightarrow> Inl e | Inr v \<Rightarrow> Inr ()))"
    proof (cases r)
      case (Inr v)
      with 1(2) tc have y: "y = (Inr v, s1, w1)" by simp
      from a tc Inr i show ?thesis
        unfolding y by (intro exI [of _ "[Status i]"]) (simp add: thread_at_def)
    next
      case (Inl e)
      show ?thesis
      proof (cases "status_code_of e = Some 401")
        case False
        with 1(2) tc Inl have y: "y = (Inl e, s1, w1)" by (cases e) auto
        from a tc Inl False i show ?thesis
          unfolding y by (intro exI [of _ "[Status i]"]) (simp add: thread_at_def)
      next
        case True
        then obtain m where e: "e = IBAPIError m (Some 401)" by (cases e) auto
        obtain r2 w2 where ra: "reauthenticate w1 = (r2, w2)"
          by (cases "reauthenticate w1") auto
        let ?\<sigma>1 = "move i (EL_reauth t) (\<sigma>\<lparr>sess := s1, env := w1\<rparr>)"
        have f1: "fire (Status i) \<sigma> = Some ?\<sigma>1"
          using a tc Inl True by simp
        have at1: "thread_at ?\<sigma>1 i = Some (EL_reauth t)"
          using i by (simp add: thread_at_def)
        show ?thesis
        proof (cases r2)
          case (Inl e')
          with 1(2) tc \<open>r = Inl e\<close> e ra have y: "y = (Inl e', s1, w2)" by simp
          have "fire (Reauth i) ?\<sigma>1 =
                  Some (move i (EL_returned (Inl e')) (?\<sigma>1\<lparr>env := w2, locked := False\<rparr>))"
            using at1 ra Inl by simp
          with f1 i show ?thesis
            unfolding y by (intro exI [of _ "[Status i, Reauth i]"]) (simp add: thread_at_def)
        next
          case (Inr u)
          with 1(2) tc \<open>r = Inl e\<close> e ra have c: "check s1 w2 = Some y" by simp
          let ?\<sigma>2 = "move i (EL_status t) (?\<sigma>1\<lparr>env := w2\<rparr>)"
          have f2: "fire (Reauth i) ?\<sigma>1 = Some ?\<sigma>2"
            using at1 ra Inr by simp
          have "thread_at ?\<sigma>2 i = Some (EL_status t) \<and> sess ?\<sigma>2 = s1 \<and> env ?\<sigma>2 = w2"
            using i by (simp add: thread_at_def)
          with 1(1) [OF c] obtain es \<sigma>' where
            r: "run es ?\<sigma>2 = Some \<sigma>'"
               "sess \<sigma>' = (case fst y of Inl e \<Rightarrow> fst (snd y)
                                       | Inr v \<Rightarrow> (fst (snd y))\<lparr>last_auth_check := Some t\<rparr>)"
               "env \<sigma>' = snd (snd y)"
               "thread_at \<sigma>' i = Some (EL_returned (case fst y of Inl e \<Rightarrow> Inl e | Inr v \<Rightarrow> Inr ()))"
            by blast
          have "run (Status i # Reauth i # es) \<sigma> = Some \<sigma>'"
            using f1 f2 r(1) by (simp only: run_Cons_Some)
          with r(2-4) show ?thesis by blast
        qed
      qed
    qed
  qed
qed

lemma ensure_live_alone:
  assumes "ensure_live t s w = Some (r, s', w')"
    and "sess \<sigma> = s" and "env \<sigma> = w" and "\<not> locked \<sigma>"
  shows "\<exists>es \<sigma>'. run (Call_ensure_live # Lock (length (threads \<sigma>)) t # es) \<sigma> = Some \<sigma>'
           \<and> sess \<sigma>' = s' \<and> env \<sigma>' = w'
           \<and> thread_at \<sigma>' (length (threads \<sigma>)) = Some (EL_returned r)"
proof (cases "needs_check t s")
  case False
  with assms show ?thesis
    by (intro exI [of _ "[]"]) (simp add: ensure_live_def thread_at_def move_def)
next
  case True
  let ?i = "length (threads \<sigma>)"
  let ?\<sigma>1 = "move ?i (EL_status t) (\<sigma>\<lparr>threads := threads \<sigma> @ [EL_lock], locked := True\<rparr>)"
  have f: "run [Call_ensure_live, Lock ?i t] \<sigma> = Some ?\<sigma>1"
    using True assms(2,4) by (simp add: thread_at_def)
  from True assms(1) obtain y where y: "check_auth_status s w = Some y"
    and r: "r = (case fst y of Inl e \<Rightarrow> Inl e | Inr v \<Rightarrow> Inr ())"
    and s': "s' = (case fst y of Inl e \<Rightarrow> fst (snd y)
                               | Inr v \<Rightarrow> (fst (snd y))\<lparr>last_auth_check := Some t\<rparr>)"
    and w': "w' = snd (snd y)"
    by (auto simp: ensure_live_def split: option.splits prod.splits sum.splits)
  have "thread_at ?\<sigma>1 ?i = Some (EL_status t) \<and> sess ?\<sigma>1 = s \<and> env ?\<sigma>1 = w"
    using assms(2,3) by (simp add: thread_at_def)
  with check_steps [OF y, of ?i t] obtain es \<sigma>' where
    "run es ?\<sigma>1 = Some \<sigma>'" "sess \<sigma>' = s'" "env \<sigma>' = w'" "thread_at \<sigma>' ?i = Some (EL_returned r)"
    unfolding r s' w' by blast
  moreover have "run ([Call_ensure_live, Lock ?i t] @ es) \<sigma> = run es ?\<sigma>1"
    by (simp only: run_append f option.case)
  ultimately show ?thesis by (intro exI [of _ es] exI [of _ \<sigma>']) simp
qed


end
